theory Spec2Isabelle
  imports Main "HOL-Library.Word"
begin

section \<open>Data model of \<^verbatim>\<open>reminder_full.c\<close>\<close>

text \<open>
  The C \<^verbatim>\<open>int\<close> fields that take part in arithmetic (\<^verbatim>\<open>id\<close>, \<^verbatim>\<open>next_id\<close>) and the
  \<^verbatim>\<open>priority\<close> are 32-bit words read as two's complement; \<^verbatim>\<open>next_id++\<close> and
  \<^verbatim>\<open>id + 1\<close> wrap around, as the machine addition does. A \<^verbatim>\<open>time_t\<close> is only copied
  and compared, never added to, so it is an \<open>int\<close>. The counter \<^verbatim>\<open>task_count\<close> and
  the loop indices are \<open>int\<close>s as well: they may be negative as far as the type goes,
  and every array access checks its index.
\<close>

type_synonym time_t = int

record task_t =
  task_id :: "32 word"
  title :: string
  category :: string
  priority :: "32 word"
  deadline :: time_t

record due_copy_t =
  items :: "task_t list"
  count :: int

definition MAX_TASKS :: int where
  "MAX_TASKS = 256"

text \<open>The globals \<^verbatim>\<open>tasks\<close>, \<^verbatim>\<open>task_count\<close> and \<^verbatim>\<open>next_id\<close>.\<close>

record store =
  tasks :: "task_t list"
  task_count :: int
  next_id :: "32 word"

datatype error = CapacityExceeded | OutOfBounds

text \<open>Reading and writing one slot of an array; an index outside it is an error.\<close>

definition rd :: "'a list \<Rightarrow> int \<Rightarrow> error + 'a" where
  "rd ts i = (if 0 \<le> i \<and> i < int (length ts) then Inr (ts ! nat i) else Inl OutOfBounds)"

definition wr :: "'a list \<Rightarrow> int \<Rightarrow> 'a \<Rightarrow> error + 'a list" where
  "wr ts i t = (if 0 \<le> i \<and> i < int (length ts) then Inr (ts[nat i := t]) else Inl OutOfBounds)"

text \<open>The zero-initialised globals at program start.\<close>

definition blank_task :: task_t where
  "blank_task = \<lparr>task_id = 0, title = [], category = [], priority = 0, deadline = 0\<rparr>"

definition init_store :: store where
  "init_store = \<lparr>tasks = replicate (nat MAX_TASKS) blank_task, task_count = 0, next_id = 1\<rparr>"

section \<open>Loading\<close>

text \<open>
  \<^verbatim>\<open>load_tasks\<close>: the file is the list of its lines as \<^verbatim>\<open>sscanf\<close> sees them, \<open>None\<close>
  for a line that does not scan to five fields; \<open>None\<close> for the whole file when
  \<^verbatim>\<open>fopen\<close> fails.
\<close>

type_synonym scanned = "(32 word \<times> string \<times> string \<times> 32 word \<times> time_t) option"

fun load_loop :: "scanned list \<Rightarrow> store \<Rightarrow> error + store" where
  "load_loop [] s = Inr s"
| "load_loop (l # ls) s =
     (if task_count s < MAX_TASKS then
        (case l of
           None \<Rightarrow> load_loop ls s
         | Some (i, ttl, cat, pr, dl) \<Rightarrow>
             (case wr (tasks s) (task_count s)
                     \<lparr>task_id = i, title = take 127 ttl, category = take 31 cat,
                      priority = pr, deadline = dl\<rparr> of
                Inl e \<Rightarrow> Inl e
              | Inr ts \<Rightarrow>
                  load_loop ls
                    (s\<lparr>tasks := ts, task_count := task_count s + 1,
                       next_id := (if next_id s \<le>s i then i + 1 else next_id s)\<rparr>)))
      else Inr s)"

definition load_tasks :: "scanned list option \<Rightarrow> store \<Rightarrow> error + store" where
  "load_tasks file s =
     (case file of
        None \<Rightarrow> Inr s
      | Some ls \<Rightarrow> load_loop ls (s\<lparr>task_count := 0, next_id := 1\<rparr>))"

section \<open>User operations\<close>

text \<open>\<^verbatim>\<open>add_task\<close>, from the lock to the unlock; the result is the id given to the task.\<close>

definition add_task :: "string \<Rightarrow> string \<Rightarrow> 32 word \<Rightarrow> time_t \<Rightarrow> store \<Rightarrow> error + (32 word \<times> store)" where
  "add_task ttl cat pr dl s =
     (if task_count s \<ge> MAX_TASKS then Inl CapacityExceeded
      else
        (case wr (tasks s) (task_count s)
                \<lparr>task_id = next_id s, title = take 127 ttl, category = take 31 cat,
                 priority = pr, deadline = dl\<rparr> of
           Inl e \<Rightarrow> Inl e
         | Inr ts \<Rightarrow>
             Inr (next_id s,
                  s\<lparr>tasks := ts, task_count := task_count s + 1, next_id := next_id s + 1\<rparr>)))"

text \<open>\<^verbatim>\<open>view_tasks\<close>: the rows printed, one per slot below \<^verbatim>\<open>task_count\<close>.\<close>

function view_loop :: "task_t list \<Rightarrow> int \<Rightarrow> int \<Rightarrow> task_t list \<Rightarrow> error + task_t list" where
  "view_loop ts n i out =
     (if i < n then
        (case rd ts i of
           Inl e \<Rightarrow> Inl e
         | Inr t \<Rightarrow> view_loop ts n (i + 1) (out @ [t]))
      else Inr out)"
  by pat_completeness auto
termination
  by (relation "measure (\<lambda>(ts, n, i, out). nat (n - i))") auto

definition view_tasks :: "store \<Rightarrow> error + task_t list" where
  "view_tasks s = (if task_count s = 0 then Inr [] else view_loop (tasks s) (task_count s) 0 [])"

text \<open>\<^verbatim>\<open>delete_task\<close>: the search for the index, then the shift of the slots above it.\<close>

function find_idx :: "task_t list \<Rightarrow> int \<Rightarrow> 32 word \<Rightarrow> int \<Rightarrow> error + int" where
  "find_idx ts n ident i =
     (if i < n then
        (case rd ts i of
           Inl e \<Rightarrow> Inl e
         | Inr t \<Rightarrow> if task_id t = ident then Inr i else find_idx ts n ident (i + 1))
      else Inr (- 1))"
  by pat_completeness auto
termination
  by (relation "measure (\<lambda>(ts, n, ident, i). nat (n - i))") auto

function shift_down :: "task_t list \<Rightarrow> int \<Rightarrow> int \<Rightarrow> error + task_t list" where
  "shift_down ts n i =
     (if i < n - 1 then
        (case rd ts (i + 1) of
           Inl e \<Rightarrow> Inl e
         | Inr t \<Rightarrow>
             (case wr ts i t of
                Inl e \<Rightarrow> Inl e
              | Inr ts' \<Rightarrow> shift_down ts' n (i + 1)))
      else Inr ts)"
  by pat_completeness auto
termination
  by (relation "measure (\<lambda>(ts, n, i). nat (n - i))") auto

definition delete_task :: "32 word \<Rightarrow> store \<Rightarrow> error + (bool \<times> store)" where
  "delete_task ident s =
     (case find_idx (tasks s) (task_count s) ident 0 of
        Inl e \<Rightarrow> Inl e
      | Inr idx \<Rightarrow>
          if idx \<noteq> - 1 then
            (case shift_down (tasks s) (task_count s) idx of
               Inl e \<Rightarrow> Inl e
             | Inr ts \<Rightarrow> Inr (True, s\<lparr>tasks := ts, task_count := task_count s - 1\<rparr>))
          else Inr (False, s))"

section \<open>The deadline selector\<close>

text \<open>\<^verbatim>\<open>next_deadline\<close>, with the value of \<^verbatim>\<open>time(NULL)\<close> as a parameter.\<close>

function nd_loop :: "task_t list \<Rightarrow> int \<Rightarrow> time_t \<Rightarrow> int \<Rightarrow> time_t \<Rightarrow> error + time_t" where
  "nd_loop ts n now i best =
     (if i < n then
        (case rd ts i of
           Inl e \<Rightarrow> Inl e
         | Inr t \<Rightarrow>
             if deadline t \<le> now then Inr now
             else nd_loop ts n now (i + 1)
                    (if best = 0 \<or> deadline t < best then deadline t else best))
      else Inr best)"
  by pat_completeness auto
termination
  by (relation "measure (\<lambda>(ts, n, now, i, best). nat (n - i))") auto

definition next_deadline :: "time_t \<Rightarrow> store \<Rightarrow> error + time_t" where
  "next_deadline now s = nd_loop (tasks s) (task_count s) now 0 0"

section \<open>Extraction of the due tasks\<close>

text \<open>
  The locked region of \<^verbatim>\<open>scheduler_thread_fn\<close>: count the due tasks, and when there
  are some, copy them out and compact the others in place. \<^verbatim>\<open>copies\<close> is a buffer
  of \<^verbatim>\<open>due_count\<close> slots filled from slot 0, so a write is an append, checked against
  the buffer's size.
\<close>

function count_due :: "task_t list \<Rightarrow> int \<Rightarrow> time_t \<Rightarrow> int \<Rightarrow> int \<Rightarrow> error + int" where
  "count_due ts n tnow i due_count =
     (if i < n then
        (case rd ts i of
           Inl e \<Rightarrow> Inl e
         | Inr t \<Rightarrow>
             count_due ts n tnow (i + 1)
               (if deadline t \<le> tnow then due_count + 1 else due_count))
      else Inr due_count)"
  by pat_completeness auto
termination
  by (relation "measure (\<lambda>(ts, n, tnow, i, due_count). nat (n - i))") auto

function partition_loop ::
  "task_t list \<Rightarrow> int \<Rightarrow> time_t \<Rightarrow> int \<Rightarrow> int \<Rightarrow> task_t list \<Rightarrow> int
     \<Rightarrow> error + (task_t list \<times> task_t list \<times> int)" where
  "partition_loop ts n tnow due_count i copies write_idx =
     (if i < n then
        (case rd ts i of
           Inl e \<Rightarrow> Inl e
         | Inr t \<Rightarrow>
             if deadline t \<le> tnow then
               (if int (length copies) < due_count
                then partition_loop ts n tnow due_count (i + 1) (copies @ [t]) write_idx
                else Inl OutOfBounds)
             else
               (case wr ts write_idx t of
                  Inl e \<Rightarrow> Inl e
                | Inr ts' \<Rightarrow>
                    partition_loop ts' n tnow due_count (i + 1) copies (write_idx + 1)))
      else Inr (copies, ts, write_idx))"
  by pat_completeness auto
termination
  by (relation "measure (\<lambda>(ts, n, tnow, due_count, i, copies, write_idx). nat (n - i))") auto

definition extract_due :: "time_t \<Rightarrow> store \<Rightarrow> error + (due_copy_t option \<times> store)" where
  "extract_due tnow s =
     (case count_due (tasks s) (task_count s) tnow 0 0 of
        Inl e \<Rightarrow> Inl e
      | Inr due_count \<Rightarrow>
          if due_count = 0 then Inr (None, s)
          else
            (case partition_loop (tasks s) (task_count s) tnow due_count 0 [] 0 of
               Inl e \<Rightarrow> Inl e
             | Inr (copies, ts, write_idx) \<Rightarrow>
                 Inr (Some \<lparr>items = copies, count = due_count\<rparr>,
                      s\<lparr>tasks := ts, task_count := write_idx\<rparr>)))"

text \<open>The tasks of a batch: none when no batch was made.\<close>

definition batch_tasks :: "due_copy_t option \<Rightarrow> task_t list" where
  "batch_tasks b = (case b of None \<Rightarrow> [] | Some dc \<Rightarrow> take (nat (count dc)) (items dc))"

section \<open>The live tasks\<close>

text \<open>The slots below \<^verbatim>\<open>task_count\<close>, in storage order; the store as the C types have it.\<close>

definition live :: "store \<Rightarrow> task_t list" where
  "live s = take (nat (task_count s)) (tasks s)"

definition wf :: "store \<Rightarrow> bool" where
  "wf s \<longleftrightarrow> int (length (tasks s)) = MAX_TASKS \<and> 0 \<le> task_count s \<and> task_count s \<le> MAX_TASKS"

section \<open>The countdown notifier\<close>

text \<open>
  What a notifier thread does, in order: the calls of \<^verbatim>\<open>sleep\<close> and the lines it prints.
\<close>

datatype event =
    Sleep int
  | Header int
  | Item task_t
  | Closing string int
  | Final string
  | Finished

definition intervals :: "int list" where
  "intervals = [30, 10, 15, 4, 1]"

definition announce_secs :: "int list" where
  "announce_secs = [30, 20, 5, 1, 0]"

function item_loop :: "task_t list \<Rightarrow> int \<Rightarrow> int \<Rightarrow> event list \<Rightarrow> error + event list" where
  "item_loop its n i out =
     (if i < n then
        (case rd its i of
           Inl e \<Rightarrow> Inl e
         | Inr t \<Rightarrow> item_loop its n (i + 1) (out @ [Item t]))
      else Inr out)"
  by pat_completeness auto
termination
  by (relation "measure (\<lambda>(its, n, i, out). nat (n - i))") auto

function announce_loop ::
  "task_t list \<Rightarrow> int \<Rightarrow> int \<Rightarrow> int \<Rightarrow> event list \<Rightarrow> error + event list" where
  "announce_loop its n secs i out =
     (if i < n then
        (case rd its i of
           Inl e \<Rightarrow> Inl e
         | Inr t \<Rightarrow>
             announce_loop its n secs (i + 1)
               (out @ [if secs > 0 then Closing (title t) secs else Final (title t)]))
      else Inr out)"
  by pat_completeness auto
termination
  by (relation "measure (\<lambda>(its, n, secs, i, out). nat (n - i))") auto

text \<open>The loop over the five stages.\<close>

function stage_loop :: "due_copy_t \<Rightarrow> int \<Rightarrow> event list \<Rightarrow> error + event list" where
  "stage_loop dc k out =
     (if k < 5 then
        (case rd intervals k of
           Inl e \<Rightarrow> Inl e
         | Inr iv \<Rightarrow>
             (case rd announce_secs k of
                Inl e \<Rightarrow> Inl e
              | Inr secs \<Rightarrow>
                  (case announce_loop (items dc) (count dc) secs 0 (out @ [Sleep iv]) of
                     Inl e \<Rightarrow> Inl e
                   | Inr out' \<Rightarrow> stage_loop dc (k + 1) out')))
      else Inr out)"
  by pat_completeness auto
termination
  by (relation "measure (\<lambda>(dc, k, out). nat (5 - k))") auto

definition reminder_thread_fn :: "due_copy_t option \<Rightarrow> error + event list" where
  "reminder_thread_fn arg =
     (case arg of
        None \<Rightarrow> Inr []
      | Some dc \<Rightarrow>
          if count dc \<le> 0 then Inr []
          else
            (case item_loop (items dc) (count dc) 0 [Header (count dc)] of
               Inl e \<Rightarrow> Inl e
             | Inr out \<Rightarrow>
                 (case stage_loop dc 0 out of
                    Inl e \<Rightarrow> Inl e
                  | Inr out' \<Rightarrow> Inr (out' @ [Finished]))))"

text \<open>
  The notifier's clock: every event with the time at which it is over, when a
  \<^verbatim>\<open>sleep\<close> lasts as long as it was asked to and printing takes no time.
\<close>

fun stamps :: "int \<Rightarrow> event list \<Rightarrow> (int \<times> event) list" where
  "stamps clk [] = []"
| "stamps clk (Sleep n # es) = (clk + n, Sleep n) # stamps (clk + n) es"
| "stamps clk (e # es) = (clk, e) # stamps clk es"

fun sleeps :: "event list \<Rightarrow> int list" where
  "sleeps [] = []"
| "sleeps (Sleep n # es) = n # sleeps es"
| "sleeps (e # es) = sleeps es"

fun is_announcement :: "int \<times> event \<Rightarrow> bool" where
  "is_announcement (c, Closing ttl n) = True"
| "is_announcement (c, Final ttl) = True"
| "is_announcement (c, e) = False"

section \<open>The threads together\<close>

text \<open>
  Where the scheduler thread stands: at the top of its loop, waiting for the alarm, or
  past the unlock with the batch in hand, before \<^verbatim>\<open>save_tasks\<close> and
  \<^verbatim>\<open>pthread_create\<close>. Each region under the mutex is one step; the steps of the
  threads interleave in any order.
\<close>

datatype sched_pc = Top | Waiting | Handoff due_copy_t

record system =
  st :: store
  pc :: sched_pc
  running :: "event list list"

datatype action =
    Add string string "32 word" time_t
  | Delete "32 word"
  | Sched_Poll time_t time_t
  | Sched_Wake time_t
  | Sched_Spawn bool
  | Notify nat

datatype outcome =
    Added task_t
  | Rejected
  | Deleted bool
  | Polled int
  | Armed int
  | NothingDue
  | Extracted due_copy_t
  | Spawned
  | SpawnFailed
  | Notified event
  | Exited
  | Skipped

text \<open>
  One step. \<^verbatim>\<open>Sched_Poll\<close> carries the two readings of the clock (inside
  \<^verbatim>\<open>next_deadline\<close> and after it); the wait asked for is the difference that
  \<^verbatim>\<open>difftime\<close> returns. \<^verbatim>\<open>Sched_Spawn\<close> carries whether \<^verbatim>\<open>pthread_create\<close>
  succeeds. A step that a thread cannot take where it stands leaves everything as it is.
\<close>

fun step :: "action \<Rightarrow> system \<Rightarrow> error + (outcome \<times> system)" where
  "step (Add ttl cat pr dl) y =
     (case add_task ttl cat pr dl (st y) of
        Inl CapacityExceeded \<Rightarrow> Inr (Rejected, y)
      | Inl OutOfBounds \<Rightarrow> Inl OutOfBounds
      | Inr (i, s') \<Rightarrow>
          Inr (Added \<lparr>task_id = i, title = take 127 ttl, category = take 31 cat,
                      priority = pr, deadline = dl\<rparr>, y\<lparr>st := s'\<rparr>))"
| "step (Delete ident) y =
     (case delete_task ident (st y) of
        Inl e \<Rightarrow> Inl e
      | Inr (found, s') \<Rightarrow> Inr (Deleted found, y\<lparr>st := s'\<rparr>))"
| "step (Sched_Poll now_nd now) y =
     (case pc y of
        Top \<Rightarrow>
          (case next_deadline now_nd (st y) of
             Inl e \<Rightarrow> Inl e
           | Inr nd \<Rightarrow>
               if nd = 0 then Inr (Polled 2, y)
               else Inr (Armed (nd - now), y\<lparr>pc := Waiting\<rparr>))
      | _ \<Rightarrow> Inr (Skipped, y))"
| "step (Sched_Wake tnow) y =
     (case pc y of
        Waiting \<Rightarrow>
          (case extract_due tnow (st y) of
             Inl e \<Rightarrow> Inl e
           | Inr (None, s') \<Rightarrow> Inr (NothingDue, y\<lparr>st := s', pc := Top\<rparr>)
           | Inr (Some dc, s') \<Rightarrow> Inr (Extracted dc, y\<lparr>st := s', pc := Handoff dc\<rparr>))
      | _ \<Rightarrow> Inr (Skipped, y))"
| "step (Sched_Spawn ok) y =
     (case pc y of
        Handoff dc \<Rightarrow>
          if ok then
            (case reminder_thread_fn (Some dc) of
               Inl e \<Rightarrow> Inl e
             | Inr evs \<Rightarrow> Inr (Spawned, y\<lparr>pc := Top, running := running y @ [evs]\<rparr>))
          else Inr (SpawnFailed, y\<lparr>pc := Top\<rparr>)
      | _ \<Rightarrow> Inr (Skipped, y))"
| "step (Notify k) y =
     (if k < length (running y) then
        (case running y ! k of
           [] \<Rightarrow> Inr (Exited, y\<lparr>running := take k (running y) @ drop (Suc k) (running y)\<rparr>)
         | e # es \<Rightarrow> Inr (Notified e, y\<lparr>running := (running y)[k := es]\<rparr>))
      else Inr (Skipped, y))"

fun run :: "action list \<Rightarrow> system \<Rightarrow> error + (outcome list \<times> system)" where
  "run [] y = Inr ([], y)"
| "run (a # as) y =
     (case step a y of
        Inl e \<Rightarrow> Inl e
      | Inr (out, y') \<Rightarrow>
          (case run as y' of
             Inl e \<Rightarrow> Inl e
           | Inr (outs, y'') \<Rightarrow> Inr (out # outs, y'')))"

text \<open>The process from its start: \<^verbatim>\<open>load_tasks\<close>, then the threads.\<close>

definition boot :: "scanned list option \<Rightarrow> error + system" where
  "boot file =
     (case load_tasks file init_store of
        Inl e \<Rightarrow> Inl e
      | Inr s \<Rightarrow> Inr \<lparr>st = s, pc = Top, running = []\<rparr>)"

definition session :: "scanned list option \<Rightarrow> action list \<Rightarrow> error + (outcome list \<times> system)" where
  "session file acts = (case boot file of Inl e \<Rightarrow> Inl e | Inr y \<Rightarrow> run acts y)"

text \<open>The ids that the additions of a run gave out, in order.\<close>

fun added_ids :: "outcome list \<Rightarrow> 32 word list" where
  "added_ids [] = []"
| "added_ids (Added t # outs) = task_id t # added_ids outs"
| "added_ids (out # outs) = added_ids outs"

fun added_tasks :: "outcome list \<Rightarrow> task_t list" where
  "added_tasks [] = []"
| "added_tasks (Added t # outs) = t # added_tasks outs"
| "added_tasks (out # outs) = added_tasks outs"

fun count_adds :: "action list \<Rightarrow> nat" where
  "count_adds [] = 0"
| "count_adds (Add ttl cat pr dl # as) = Suc (count_adds as)"
| "count_adds (a # as) = count_adds as"

fun outputs_of :: "error + (outcome list \<times> system) \<Rightarrow> outcome list" where
  "outputs_of (Inl e) = []"
| "outputs_of (Inr (outs, y)) = outs"

section \<open>Auxiliary notions for the proofs\<close>

text \<open>The slots from \<open>i\<close> up to, not including, \<open>n\<close>.\<close>

definition slice :: "'a list \<Rightarrow> int \<Rightarrow> int \<Rightarrow> 'a list" where
  "slice ts i n = drop (nat i) (take (nat n) ts)"

text \<open>The loops of \<^verbatim>\<open>next_deadline\<close> and \<^verbatim>\<open>delete_task\<close> read along a list.\<close>

fun nd_list :: "time_t \<Rightarrow> task_t list \<Rightarrow> time_t \<Rightarrow> time_t" where
  "nd_list now [] best = best"
| "nd_list now (t # xs) best =
     (if deadline t \<le> now then now
      else nd_list now xs (if best = 0 \<or> deadline t < best then deadline t else best))"

fun first_idx :: "32 word \<Rightarrow> task_t list \<Rightarrow> int \<Rightarrow> int" where
  "first_idx ident [] k = - 1"
| "first_idx ident (t # xs) k = (if task_id t = ident then k else first_idx ident xs (k + 1))"

text \<open>The line a countdown stage prints for one task.\<close>

definition announcement :: "int \<Rightarrow> task_t \<Rightarrow> event" where
  "announcement secs t = (if secs > 0 then Closing (title t) secs else Final (title t))"

text \<open>
  A system whose store is well formed and whose scheduler, when it holds a batch, holds
  one whose count fits its buffer.
\<close>

definition sys_wf :: "system \<Rightarrow> bool" where
  "sys_wf y \<longleftrightarrow> wf (st y) \<and> (case pc y of Handoff dc \<Rightarrow> count dc \<le> int (length (items dc)) | _ \<Rightarrow> True)"

text \<open>Every live id lies below the counter, as signed numbers.\<close>

definition ids_below :: "store \<Rightarrow> bool" where
  "ids_below s \<longleftrightarrow> (\<forall>t \<in> set (live s). task_id t <s next_id s)"

text \<open>No two live tasks share an id.\<close>

definition ids_distinct :: "store \<Rightarrow> bool" where
  "ids_distinct s \<longleftrightarrow> distinct (map task_id (live s))"

text \<open>The ids of the lines of a file that scan, in order; the lines of a file that opens.\<close>

fun file_ids :: "scanned list \<Rightarrow> 32 word list" where
  "file_ids [] = []"
| "file_ids (None # ls) = file_ids ls"
| "file_ids (Some (i, ttl, cat, pr, dl) # ls) = i # file_ids ls"

definition lines_of :: "scanned list option \<Rightarrow> scanned list" where
  "lines_of file = (case file of None \<Rightarrow> [] | Some ls \<Rightarrow> ls)"

text \<open>The ids of the live tasks at the end of a run; none after an error.\<close>

fun final_ids :: "error + (outcome list \<times> system) \<Rightarrow> 32 word list" where
  "final_ids (Inl e) = []"
| "final_ids (Inr (outs, y)) = map task_id (live (st y))"

text \<open>The live tasks after an operation that returns a store; \<open>None\<close> after an error.\<close>

definition live_after :: "error + ('a \<times> store) \<Rightarrow> task_t list option" where
  "live_after r = (case r of Inl e \<Rightarrow> None | Inr (x, s) \<Rightarrow> Some (live s))"

section \<open>Example stores\<close>

definition task_a :: task_t where
  "task_a = \<lparr>task_id = 1, title = ''report'', category = ''Work'', priority = 2, deadline = 100\<rparr>"

definition task_b :: task_t where
  "task_b = \<lparr>task_id = 2, title = ''exam'', category = ''Study'', priority = 5, deadline = 200\<rparr>"

definition task_c :: task_t where
  "task_c = \<lparr>task_id = 3, title = ''call'', category = ''Personal'', priority = 1, deadline = 50\<rparr>"

definition demo_store :: store where
  "demo_store = \<lparr>tasks = [task_a, task_b, task_c] @ replicate 253 blank_task,
                  task_count = 3, next_id = 4\<rparr>"

definition full_store :: store where
  "full_store = \<lparr>tasks = replicate 256 task_a, task_count = 256, next_id = 257\<rparr>"

definition demo_batch :: due_copy_t where
  "demo_batch = \<lparr>items = [task_a, task_c], count = 2\<rparr>"

definition epoch_store :: store where
  "epoch_store = \<lparr>tasks = [task_a\<lparr>deadline := 0\<rparr>, task_b\<lparr>deadline := 5\<rparr>]
                                @ replicate 254 blank_task,
                   task_count = 2, next_id = 3\<rparr>"

text \<open>Example systems and schedules.\<close>

definition fresh_system :: system where
  "fresh_system = \<lparr>st = init_store, pc = Top, running = []\<rparr>"

definition demo_actions :: "action list" where
  "demo_actions =
     [Add ''report'' ''Work'' 2 100, Delete 1, Add ''exam'' ''Study'' 5 200,
      Sched_Poll 50 50, Sched_Wake 150, Sched_Spawn True, Notify 0,
      Add ''call'' ''Personal'' 1 300]"

definition demo_waiting :: system where
  "demo_waiting = \<lparr>st = demo_store, pc = Waiting, running = []\<rparr>"

definition demo_extracted :: system where
  "demo_extracted =
     \<lparr>st = \<lparr>tasks = [task_b, task_b, task_c] @ replicate 253 blank_task,
             task_count = 1, next_id = 4\<rparr>,
      pc = Handoff demo_batch, running = []\<rparr>"

definition later_actions :: "action list" where
  "later_actions =
     [Add ''gym'' ''Personal'' 3 300, Sched_Spawn True, Notify 0, Delete 2,
      Sched_Poll 120 120, Sched_Wake 400]"

text \<open>Example files: one that loads the example store, one with the largest id, one with
  an id twice.\<close>

definition demo_file :: "scanned list option" where
  "demo_file =
     Some [Some (1, ''report'', ''Work'', 2, 100), None, Some (2, ''exam'', ''Study'', 5, 200),
           Some (3, ''call'', ''Personal'', 1, 50)]"

definition demo_top :: system where
  "demo_top = \<lparr>st = demo_store, pc = Top, running = []\<rparr>"

definition wrap_file :: "scanned list option" where
  "wrap_file =
     Some [Some (7, ''call'', ''Personal'', 1, 50), Some (0x7FFFFFFF, ''exam'', ''Study'', 5, 500),
           Some (6, ''report'', ''Work'', 2, 600)]"

definition dup_file :: "scanned list option" where
  "dup_file =
     Some [Some (1, ''call'', ''Personal'', 1, 50), Some (1, ''exam'', ''Study'', 5, 500)]"

definition poll_actions :: "action list" where
  "poll_actions = [Sched_Poll 100 100]"

definition add_actions :: "action list" where
  "add_actions = [Add ''gym'' ''Personal'' 3 300, Delete 2, Add ''walk'' ''Personal'' 1 400]"

section \<open>The loops, read as functions of the slots they visit\<close>


declare view_loop.simps [simp del] find_idx.simps [simp del] shift_down.simps [simp del]
  nd_loop.simps [simp del] count_due.simps [simp del] partition_loop.simps [simp del]
  item_loop.simps [simp del] announce_loop.simps [simp del] stage_loop.simps [simp del]

lemma slice_step:
  "0 \<le> i \<Longrightarrow> i < n \<Longrightarrow> n \<le> int (length ts) \<Longrightarrow> slice ts i n = ts ! nat i # slice ts (i + 1) n"
  unfolding slice_def
  by (simp add: Cons_nth_drop_Suc [symmetric] nat_add_distrib)

lemma slice_done: "n \<le> i \<Longrightarrow> 0 \<le> i \<Longrightarrow> slice ts i n = []"
  unfolding slice_def by simp

lemma rd_ok: "0 \<le> i \<Longrightarrow> i < int (length ts) \<Longrightarrow> rd ts i = Inr (ts ! nat i)"
  by (simp add: rd_def)

lemma wr_ok: "0 \<le> i \<Longrightarrow> i < int (length ts) \<Longrightarrow> wr ts i t = Inr (ts[nat i := t])"
  by (simp add: wr_def)

lemma slice_update_below:
  "0 \<le> w \<Longrightarrow> w < i \<Longrightarrow> slice (ts[nat w := t]) i n = slice ts i n"
  unfolding slice_def by (simp add: take_update_swap drop_update_cancel del: take_update_cancel)

lemma view_loop_slice:
  "0 \<le> i \<Longrightarrow> n \<le> int (length ts) \<Longrightarrow> view_loop ts n i out = Inr (out @ slice ts i n)"
proof (induction ts n i out rule: view_loop.induct)
  case (1 ts n i out)
  show ?case
  proof (cases "i < n")
    case True
    with 1 show ?thesis
      by (subst view_loop.simps) (simp add: rd_ok slice_step)
  next
    case False
    with 1 show ?thesis
      by (subst view_loop.simps) (simp add: slice_done)
  qed
qed

lemma count_due_slice:
  "0 \<le> i \<Longrightarrow> n \<le> int (length ts) \<Longrightarrow>
   count_due ts n tnow i c = Inr (c + int (length (filter (\<lambda>t. deadline t \<le> tnow) (slice ts i n))))"
proof (induction ts n tnow i c rule: count_due.induct)
  case (1 ts n tnow i c)
  show ?case
  proof (cases "i < n")
    case True
    with 1 show ?thesis
      by (subst count_due.simps) (simp add: rd_ok slice_step)
  next
    case False
    with 1 show ?thesis
      by (subst count_due.simps) (simp add: slice_done)
  qed
qed

lemma nd_loop_slice:
  "0 \<le> i \<Longrightarrow> n \<le> int (length ts) \<Longrightarrow>
   nd_loop ts n now i best = Inr (nd_list now (slice ts i n) best)"
proof (induction ts n now i best rule: nd_loop.induct)
  case (1 ts n now i best)
  show ?case
  proof (cases "i < n")
    case True
    with 1 show ?thesis
      by (subst nd_loop.simps) (simp add: rd_ok slice_step)
  next
    case False
    with 1 show ?thesis
      by (subst nd_loop.simps) (simp add: slice_done)
  qed
qed



lemma find_idx_slice:
  "0 \<le> i \<Longrightarrow> n \<le> int (length ts) \<Longrightarrow>
   find_idx ts n ident i = Inr (first_idx ident (slice ts i n) i)"
proof (induction ts n ident i rule: find_idx.induct)
  case (1 ts n ident i)
  show ?case
  proof (cases "i < n")
    case True
    with 1 show ?thesis
      by (subst find_idx.simps) (simp add: rd_ok slice_step)
  next
    case False
    with 1 show ?thesis
      by (subst find_idx.simps) (simp add: slice_done)
  qed
qed

lemma first_idx_none:
  "0 \<le> k \<Longrightarrow> (first_idx ident xs k = - 1) = (ident \<notin> task_id ` set xs)"
  by (induction xs arbitrary: k) auto

lemma shift_down_slice:
  "0 \<le> i \<Longrightarrow> i < n \<Longrightarrow> n \<le> int (length ts) \<Longrightarrow>
   shift_down ts n i = Inr (take (nat i) ts @ slice ts (i + 1) n @ drop (nat (n - 1)) ts)"
proof (induction ts n i rule: shift_down.induct)
  case (1 ts n i)
  show ?case
  proof (cases "i < n - 1")
    case True
    define ts1 where "ts1 = ts[nat i := ts ! nat (i + 1)]"
    have len: "length ts1 = length ts" by (simp add: ts1_def)
    have r: "rd ts (i + 1) = Inr (ts ! nat (i + 1))"
      using 1 True by (simp add: rd_ok)
    have w: "wr ts i (ts ! nat (i + 1)) = Inr ts1"
      using 1 True by (simp add: wr_ok ts1_def)
    have ih: "shift_down ts1 n (i + 1) =
        Inr (take (nat (i + 1)) ts1 @ slice ts1 (i + 1 + 1) n @ drop (nat (n - 1)) ts1)"
      using 1 True r w len by simp
    have a: "take (nat (i + 1)) ts1 = take (nat i) ts @ [ts ! nat (i + 1)]"
      using 1 True by (simp add: ts1_def nat_add_distrib take_Suc_conv_app_nth)
    have b: "slice ts1 (i + 1 + 1) n = slice ts (i + 1 + 1) n"
      unfolding ts1_def by (rule slice_update_below) (use 1 in auto)
    have c: "drop (nat (n - 1)) ts1 = drop (nat (n - 1)) ts"
      using 1 True by (simp add: ts1_def)
    have d: "slice ts (i + 1) n = ts ! nat (i + 1) # slice ts (i + 1 + 1) n"
      using 1 True by (intro slice_step) auto
    have step: "shift_down ts n i = shift_down ts1 n (i + 1)"
      by (subst shift_down.simps) (simp add: True r w)
    show ?thesis
      unfolding step ih a b c d by simp
  next
    case False
    with 1 have "i = n - 1" by simp
    with 1 show ?thesis
      by (subst shift_down.simps) (simp add: slice_done)
  qed
qed

lemma partition_loop_slice:
  "0 \<le> w \<Longrightarrow> w \<le> i \<Longrightarrow> n \<le> int (length ts) \<Longrightarrow>
   int (length copies) + int (length (filter (\<lambda>t. deadline t \<le> tnow) (slice ts i n))) \<le> dc \<Longrightarrow>
   \<exists>ts'. partition_loop ts n tnow dc i copies w =
           Inr (copies @ filter (\<lambda>t. deadline t \<le> tnow) (slice ts i n), ts',
                w + int (length (filter (\<lambda>t. \<not> deadline t \<le> tnow) (slice ts i n))))
       \<and> length ts' = length ts
       \<and> take (nat (w + int (length (filter (\<lambda>t. \<not> deadline t \<le> tnow) (slice ts i n))))) ts'
           = take (nat w) ts @ filter (\<lambda>t. \<not> deadline t \<le> tnow) (slice ts i n)"
proof (induction ts n tnow dc i copies w rule: partition_loop.induct)
  case (1 ts n tnow dc i copies w)
  show ?case
  proof (cases "i < n")
    case False
    with 1 show ?thesis
      by (subst partition_loop.simps) (simp add: slice_done)
  next
    case True
    define t where "t = ts ! nat i"
    have r: "rd ts i = Inr t"
      using 1 True by (simp add: rd_ok t_def)
    have st: "slice ts i n = t # slice ts (i + 1) n"
      unfolding t_def using 1 True by (intro slice_step) auto
    show ?thesis
    proof (cases "deadline t \<le> tnow")
      case due: True
      have room: "int (length copies) < dc"
        using "1.prems" st due by simp
      have "\<exists>ts'. partition_loop ts n tnow dc (i + 1) (copies @ [t]) w =
           Inr ((copies @ [t]) @ filter (\<lambda>t. deadline t \<le> tnow) (slice ts (i + 1) n), ts',
                w + int (length (filter (\<lambda>t. \<not> deadline t \<le> tnow) (slice ts (i + 1) n))))
       \<and> length ts' = length ts
       \<and> take (nat (w + int (length (filter (\<lambda>t. \<not> deadline t \<le> tnow) (slice ts (i + 1) n))))) ts'
           = take (nat w) ts @ filter (\<lambda>t. \<not> deadline t \<le> tnow) (slice ts (i + 1) n)"
        using "1.prems" True r due room st
        by (intro "1.IH"(1) [OF True r due room]) auto
      then show ?thesis
        by (subst partition_loop.simps) (simp add: True r due room st)
    next
      case keep: False
      define ts1 where "ts1 = ts[nat w := t]"
      define K where "K = int (length (filter (\<lambda>t. \<not> deadline t \<le> tnow) (slice ts (i + 1) n)))"
      have len: "length ts1 = length ts" by (simp add: ts1_def)
      have wq: "wr ts w t = Inr ts1"
        using "1.prems" True by (simp add: wr_ok ts1_def)
      have s1: "slice ts1 (i + 1) n = slice ts (i + 1) n"
        unfolding ts1_def by (rule slice_update_below) (use "1.prems" in auto)
      have tk: "take (nat (w + 1)) ts1 = take (nat w) ts @ [t]"
        using "1.prems" True by (simp add: ts1_def nat_add_distrib take_Suc_conv_app_nth)
      have pre: "int (length copies)
          + int (length (filter (\<lambda>t. deadline t \<le> tnow) (slice ts1 (i + 1) n))) \<le> dc"
        using "1.prems" st keep s1 by simp
      have "\<exists>ts'. partition_loop ts1 n tnow dc (i + 1) copies (w + 1) =
           Inr (copies @ filter (\<lambda>t. deadline t \<le> tnow) (slice ts1 (i + 1) n), ts',
                (w + 1) + int (length (filter (\<lambda>t. \<not> deadline t \<le> tnow) (slice ts1 (i + 1) n))))
       \<and> length ts' = length ts1
       \<and> take (nat ((w + 1) + int (length (filter (\<lambda>t. \<not> deadline t \<le> tnow) (slice ts1 (i + 1) n))))) ts'
           = take (nat (w + 1)) ts1 @ filter (\<lambda>t. \<not> deadline t \<le> tnow) (slice ts1 (i + 1) n)"
      proof (rule "1.IH"(2) [OF True r keep wq])
        show "0 \<le> w + 1" using "1.prems" by simp
        show "w + 1 \<le> i + 1" using "1.prems" by simp
        show "n \<le> int (length ts1)" using "1.prems" len by simp
        show "int (length copies)
          + int (length (filter (\<lambda>t. deadline t \<le> tnow) (slice ts1 (i + 1) n))) \<le> dc"
          by (rule pre)
      qed
      then obtain ts' where
        p: "partition_loop ts1 n tnow dc (i + 1) copies (w + 1) =
           Inr (copies @ filter (\<lambda>t. deadline t \<le> tnow) (slice ts (i + 1) n), ts', (w + 1) + K)"
        and l: "length ts' = length ts"
        and tk': "take (nat ((w + 1) + K)) ts'
           = (take (nat w) ts @ [t]) @ filter (\<lambda>t. \<not> deadline t \<le> tnow) (slice ts (i + 1) n)"
        unfolding s1 tk len K_def by blast
      have step: "partition_loop ts n tnow dc i copies w
          = partition_loop ts1 n tnow dc (i + 1) copies (w + 1)"
        by (subst partition_loop.simps) (simp add: True r keep wq)
      have e: "int (length (filter (\<lambda>t. \<not> deadline t \<le> tnow) (slice ts i n))) = 1 + K"
        using st keep by (simp add: K_def)
      have f1: "filter (\<lambda>t. deadline t \<le> tnow) (slice ts i n)
          = filter (\<lambda>t. deadline t \<le> tnow) (slice ts (i + 1) n)"
        using st keep by simp
      have f2: "filter (\<lambda>t. \<not> deadline t \<le> tnow) (slice ts i n)
          = t # filter (\<lambda>t. \<not> deadline t \<le> tnow) (slice ts (i + 1) n)"
        using st keep by simp
      show ?thesis
        unfolding step f1 e using p l tk' by (auto simp: add.assoc f2)
    qed
  qed
qed

section \<open>The operations on the live tasks\<close>

lemma live_slice: "live s = slice (tasks s) 0 (task_count s)"
  by (simp add: live_def slice_def)

lemma length_live: "wf s \<Longrightarrow> int (length (live s)) = task_count s"
  by (auto simp: live_def wf_def min_def)

lemma filter_none_keeps_all: "filter P xs = [] \<Longrightarrow> filter (\<lambda>x. \<not> P x) xs = xs"
  by (induction xs) (auto split: if_splits)

lemma view_tasks_live: "wf s \<Longrightarrow> view_tasks s = Inr (live s)"
  by (simp add: view_tasks_def view_loop_slice wf_def live_slice slice_def)

lemma next_deadline_live: "wf s \<Longrightarrow> next_deadline now s = Inr (nd_list now (live s) 0)"
  by (simp add: next_deadline_def nd_loop_slice wf_def live_slice)

lemma first_idx_split:
  "first_idx ident xs k \<noteq> - 1 \<Longrightarrow> 0 \<le> k \<Longrightarrow>
   \<exists>ys t zs. xs = ys @ t # zs \<and> task_id t = ident \<and> ident \<notin> task_id ` set ys
      \<and> first_idx ident xs k = k + int (length ys)"
proof (induction xs arbitrary: k)
  case Nil
  then show ?case by simp
next
  case (Cons a xs)
  show ?case
  proof (cases "task_id a = ident")
    case True
    then have "a # xs = [] @ a # xs \<and> task_id a = ident \<and> ident \<notin> task_id ` set []
        \<and> first_idx ident (a # xs) k = k + int (length ([] :: task_t list))"
      by simp
    then show ?thesis by blast
  next
    case False
    with Cons.prems have "first_idx ident xs (k + 1) \<noteq> - 1" by simp
    with Cons.IH [of "k + 1"] Cons.prems obtain ys t zs where
      h: "xs = ys @ t # zs" "task_id t = ident" "ident \<notin> task_id ` set ys"
         "first_idx ident xs (k + 1) = k + 1 + int (length ys)"
      by auto
    from h False have "a # xs = (a # ys) @ t # zs \<and> task_id t = ident
        \<and> ident \<notin> task_id ` set (a # ys)
        \<and> first_idx ident (a # xs) k = k + int (length (a # ys))"
      by auto
    then show ?thesis by blast
  qed
qed

lemma extract_due_live:
  assumes "wf s"
  shows "\<exists>b s'. extract_due now s = Inr (b, s')
      \<and> batch_tasks b = filter (\<lambda>t. deadline t \<le> now) (live s)
      \<and> live s' = filter (\<lambda>t. \<not> deadline t \<le> now) (live s)
      \<and> wf s' \<and> next_id s' = next_id s
      \<and> (filter (\<lambda>t. deadline t \<le> now) (live s) = [] \<longrightarrow> b = None \<and> s' = s)
      \<and> (\<forall>dc. b = Some dc \<longrightarrow> 0 < count dc \<and> count dc = int (length (items dc)))"
proof -
  let ?due = "filter (\<lambda>t. deadline t \<le> now) (live s)"
  let ?keep = "filter (\<lambda>t. \<not> deadline t \<le> now) (live s)"
  have n: "0 \<le> task_count s" "task_count s \<le> int (length (tasks s))"
    using assms by (simp_all add: wf_def)
  have c: "count_due (tasks s) (task_count s) now 0 0 = Inr (int (length ?due))"
    using n by (simp add: count_due_slice live_slice)
  show ?thesis
  proof (cases "?due = []")
    case True
    then have "extract_due now s = Inr (None, s)"
      by (simp add: extract_due_def c)
    moreover have "?keep = live s"
      using True by (rule filter_none_keeps_all)
    ultimately show ?thesis
      using True assms by (simp add: batch_tasks_def)
  next
    case False
    then have pos: "0 < int (length ?due)" by simp
    have "\<exists>ts'. partition_loop (tasks s) (task_count s) now (int (length ?due)) 0 [] 0 =
           Inr ([] @ filter (\<lambda>t. deadline t \<le> now) (slice (tasks s) 0 (task_count s)), ts',
                0 + int (length (filter (\<lambda>t. \<not> deadline t \<le> now) (slice (tasks s) 0 (task_count s)))))
       \<and> length ts' = length (tasks s)
       \<and> take (nat (0 + int (length (filter (\<lambda>t. \<not> deadline t \<le> now) (slice (tasks s) 0 (task_count s)))))) ts'
           = take (nat 0) (tasks s) @ filter (\<lambda>t. \<not> deadline t \<le> now) (slice (tasks s) 0 (task_count s))"
      by (rule partition_loop_slice) (use n in \<open>simp_all add: live_slice\<close>)
    then obtain ts' where
      p: "partition_loop (tasks s) (task_count s) now (int (length ?due)) 0 [] 0
            = Inr (?due, ts', int (length ?keep))"
      and l: "length ts' = length (tasks s)"
      and t: "take (length ?keep) ts' = ?keep"
      by (auto simp: live_slice)
    define s' where "s' = s\<lparr>tasks := ts', task_count := int (length ?keep)\<rparr>"
    have e: "extract_due now s = Inr (Some \<lparr>items = ?due, count = int (length ?due)\<rparr>, s')"
      using pos by (simp add: extract_due_def c p s'_def)
    have "live s' = take (nat (task_count s')) (tasks s')"
      by (rule live_def)
    also have "\<dots> = take (length ?keep) ts'"
      by (simp add: s'_def)
    also have "\<dots> = ?keep"
      by (rule t)
    finally have lv: "live s' = ?keep" .
    have "int (length ?keep) \<le> task_count s"
      using length_filter_le [of "\<lambda>t. \<not> deadline t \<le> now" "live s"] length_live [OF assms]
      by linarith
    then have w: "wf s'"
      using assms l by (simp add: wf_def s'_def)
    show ?thesis
      using e lv w pos False by (simp add: batch_tasks_def s'_def)
  qed
qed

lemma delete_task_live:
  assumes "wf s"
  shows "\<exists>found s'. delete_task ident s = Inr (found, s') \<and> wf s' \<and> next_id s' = next_id s
      \<and> found = (ident \<in> task_id ` set (live s))
      \<and> (\<not> found \<longrightarrow> s' = s)
      \<and> (found \<longrightarrow> (\<exists>xs t ys. live s = xs @ t # ys \<and> task_id t = ident
            \<and> ident \<notin> task_id ` set xs \<and> live s' = xs @ ys))"
proof -
  have n: "0 \<le> task_count s" "task_count s \<le> int (length (tasks s))"
    using assms by (simp_all add: wf_def)
  define idx where "idx = first_idx ident (live s) 0"
  have f: "find_idx (tasks s) (task_count s) ident 0 = Inr idx"
    using n by (simp add: find_idx_slice live_slice idx_def)
  show ?thesis
  proof (cases "idx = - 1")
    case True
    then have "delete_task ident s = Inr (False, s)"
      by (simp add: delete_task_def f)
    moreover have "ident \<notin> task_id ` set (live s)"
      using True first_idx_none [of 0 ident "live s"] by (simp add: idx_def)
    ultimately show ?thesis
      using assms by (intro exI [of _ False] exI [of _ s]) simp
  next
    case False
    then obtain xs t ys where
      h: "live s = xs @ t # ys" "task_id t = ident" "ident \<notin> task_id ` set xs"
         "idx = int (length xs)"
      using first_idx_split [of ident "live s" 0] by (auto simp: idx_def)
    have len: "task_count s = int (length xs) + 1 + int (length ys)"
      using length_live [OF assms] h by simp
    have i: "0 \<le> idx" "idx < task_count s"
      using h len by simp_all
    define ts' where "ts' = take (nat idx) (tasks s) @ slice (tasks s) (idx + 1) (task_count s)
        @ drop (nat (task_count s - 1)) (tasks s)"
    have sd: "shift_down (tasks s) (task_count s) idx = Inr ts'"
      unfolding ts'_def using i n by (intro shift_down_slice) auto
    define s' where "s' = s\<lparr>tasks := ts', task_count := task_count s - 1\<rparr>"
    have d: "delete_task ident s = Inr (True, s')"
      using False by (simp add: delete_task_def f sd s'_def)
    have a: "take (nat idx) (tasks s) = xs"
    proof -
      have "take (nat idx) (tasks s) = take (nat idx) (live s)"
        using i by (simp add: live_def min_def)
      then show ?thesis using h by simp
    qed
    have b: "slice (tasks s) (idx + 1) (task_count s) = ys"
    proof -
      have "slice (tasks s) (idx + 1) (task_count s) = drop (nat (idx + 1)) (live s)"
        by (simp add: slice_def live_def)
      then show ?thesis using h by (simp add: nat_add_distrib)
    qed
    have ltot: "length ts' = length (tasks s)"
      using i n by (simp add: ts'_def slice_def)
    have ts'_eq: "ts' = (xs @ ys) @ drop (nat (task_count s - 1)) (tasks s)"
      by (simp add: ts'_def a b)
    have cnt: "nat (task_count s') = length (xs @ ys)"
      using len by (simp add: s'_def)
    have "live s' = take (nat (task_count s')) ts'"
      by (simp add: live_def s'_def)
    also have "\<dots> = xs @ ys"
      unfolding cnt ts'_eq by simp
    finally have lv: "live s' = xs @ ys" .
    have w: "wf s'"
      using assms i ltot by (simp add: wf_def s'_def)
    have "ident \<in> task_id ` set (live s)"
      using h by auto
    then show ?thesis
      using d w lv h by (auto simp: s'_def)
  qed
qed

lemma add_task_full:
  "MAX_TASKS \<le> task_count s \<Longrightarrow> add_task ttl cat pr dl s = Inl CapacityExceeded"
  by (simp add: add_task_def)

lemma add_task_live:
  assumes "wf s" and "task_count s < MAX_TASKS"
  shows "\<exists>s'. add_task ttl cat pr dl s = Inr (next_id s, s') \<and> wf s'
      \<and> next_id s' = next_id s + 1 \<and> task_count s' = task_count s + 1
      \<and> live s' = live s @ [\<lparr>task_id = next_id s, title = take 127 ttl,
            category = take 31 cat, priority = pr, deadline = dl\<rparr>]"
proof -
  let ?t = "\<lparr>task_id = next_id s, title = take 127 ttl,
            category = take 31 cat, priority = pr, deadline = dl\<rparr>"
  have n: "0 \<le> task_count s" "task_count s < int (length (tasks s))"
    using assms by (simp_all add: wf_def)
  define s' where "s' = s\<lparr>tasks := (tasks s)[nat (task_count s) := ?t],
      task_count := task_count s + 1, next_id := next_id s + 1\<rparr>"
  have a: "add_task ttl cat pr dl s = Inr (next_id s, s')"
    using assms n by (simp add: add_task_def wr_ok s'_def)
  have "take (nat (task_count s + 1)) ((tasks s)[nat (task_count s) := ?t])
      = take (nat (task_count s)) (tasks s) @ [?t]"
    using n by (simp add: nat_add_distrib take_Suc_conv_app_nth)
  then have lv: "live s' = live s @ [?t]"
    by (simp add: live_def s'_def)
  have w: "wf s'"
    using assms by (simp add: wf_def s'_def)
  show ?thesis
    using a lv w by (simp add: s'_def)
qed

lemma load_loop_wf:
  "wf s \<Longrightarrow> \<exists>s'. load_loop ls s = Inr s' \<and> wf s'"
proof (induction ls arbitrary: s)
  case Nil
  then show ?case by simp
next
  case (Cons l ls)
  show ?case
  proof (cases "task_count s < MAX_TASKS")
    case False
    with Cons.prems show ?thesis by simp
  next
    case True
    show ?thesis
    proof (cases l)
      case None
      with True Cons show ?thesis by simp
    next
      case (Some r)
      obtain i ttl cat pr dl where r: "r = (i, ttl, cat, pr, dl)"
        by (cases r) auto
      let ?t = "\<lparr>task_id = i, title = take 127 ttl, category = take 31 cat,
                      priority = pr, deadline = dl\<rparr>"
      let ?s = "s\<lparr>tasks := (tasks s)[nat (task_count s) := ?t], task_count := task_count s + 1,
                       next_id := (if next_id s \<le>s i then i + 1 else next_id s)\<rparr>"
      have n: "0 \<le> task_count s" "task_count s < int (length (tasks s))"
        using Cons.prems True by (simp_all add: wf_def)
      have "wf ?s"
        using Cons.prems True by (simp add: wf_def)
      then obtain s' where "load_loop ls ?s = Inr s'" "wf s'"
        using Cons.IH by blast
      then show ?thesis
        using True Some r n by (simp add: wr_ok)
    qed
  qed
qed

lemma load_tasks_wf:
  "wf s \<Longrightarrow> \<exists>s'. load_tasks file s = Inr s' \<and> wf s'"
proof (cases "file")
  case None
  assume "wf s"
  with None show ?thesis by (simp add: load_tasks_def)
next
  case (Some ls)
  assume "wf s"
  then have "wf (s\<lparr>task_count := 0, next_id := 1\<rparr>)"
    by (simp add: wf_def MAX_TASKS_def)
  then show ?thesis
    using Some load_loop_wf by (simp add: load_tasks_def)
qed

lemma wf_init_store: "wf init_store"
  by (simp add: wf_def init_store_def MAX_TASKS_def)

section \<open>Extraction and compaction\<close>

lemma wf_demo_store: "wf demo_store"
  by (simp add: wf_def demo_store_def MAX_TASKS_def)

lemma live_demo_store: "live demo_store = [task_a, task_b, task_c]"
  by (simp add: live_def demo_store_def)

lemma extract_due_future:
  assumes "wf s"
  shows "\<exists>b s'. extract_due now s = Inr (b, s')
      \<and> batch_tasks b = filter (\<lambda>t. deadline t \<le> now) (live s)
      \<and> live s' = filter (\<lambda>t. now < deadline t) (live s)
      \<and> wf s' \<and> next_id s' = next_id s"
proof -
  have e: "(\<lambda>t::task_t. \<not> deadline t \<le> now) = (\<lambda>t. now < deadline t)"
    by (simp add: not_le)
  from extract_due_live [OF assms, of now] obtain b s' where
    "extract_due now s = Inr (b, s')"
    "batch_tasks b = filter (\<lambda>t. deadline t \<le> now) (live s)"
    "live s' = filter (\<lambda>t. \<not> deadline t \<le> now) (live s)"
    "wf s'" "next_id s' = next_id s"
    by blast
  then show ?thesis unfolding e by auto
qed



text \<open>
  C6. Extraction twice at the same instant, with nothing in between: the second call
  finds nothing due, makes no batch and leaves the store as the first call left it.
\<close>

theorem extract_due_twice:
  assumes "wf s"
  shows "\<exists>b s1. extract_due now s = Inr (b, s1)
      \<and> extract_due now s1 = Inr (None, s1) \<and> batch_tasks None = []"
proof -
  from extract_due_live [OF assms, of now] obtain b s1 where
    h: "extract_due now s = Inr (b, s1)"
       "live s1 = filter (\<lambda>t. \<not> deadline t \<le> now) (live s)" "wf s1"
    by blast
  have "filter (\<lambda>t. deadline t \<le> now) (live s1) = []"
    unfolding h(2) by (induction "live s") auto
  with extract_due_live [OF h(3), of now] have "extract_due now s1 = Inr (None, s1)"
    by auto
  with h(1) show ?thesis by (simp add: batch_tasks_def)
qed

theorem extract_due_twice_witness:
  "wf demo_store \<and> (\<exists>b s1. extract_due 100 demo_store = Inr (b, s1)
      \<and> extract_due 100 s1 = Inr (None, s1))"
  using extract_due_twice [of demo_store 100]
  by (auto simp: wf_demo_store)

text \<open>
  C9. The survivors keep their relative order: a deletion takes one task out of the
  sequence of live tasks (the first with the id) and closes the gap, an extraction keeps
  the sequence of the tasks that are not due.
\<close>

theorem compaction_keeps_order:
  assumes "wf s"
  shows "(\<exists>found s'. delete_task ident s = Inr (found, s')
            \<and> (if found
                 then \<exists>xs t ys. live s = xs @ t # ys \<and> task_id t = ident \<and> live s' = xs @ ys
                 else live s' = live s))
       \<and> (\<exists>b s'. extract_due now s = Inr (b, s')
            \<and> live s' = filter (\<lambda>t. now < deadline t) (live s))"
proof
  from delete_task_live [OF assms, of ident] obtain found s' where
    h: "delete_task ident s = Inr (found, s')" "\<not> found \<longrightarrow> s' = s"
       "found \<longrightarrow> (\<exists>xs t ys. live s = xs @ t # ys \<and> task_id t = ident
            \<and> ident \<notin> task_id ` set xs \<and> live s' = xs @ ys)"
    by blast
  show "\<exists>found s'. delete_task ident s = Inr (found, s')
            \<and> (if found
                 then \<exists>xs t ys. live s = xs @ t # ys \<and> task_id t = ident \<and> live s' = xs @ ys
                 else live s' = live s)"
  proof (cases found)
    case True
    with h show ?thesis by (intro exI [of _ True] exI [of _ s']) auto
  next
    case False
    with h show ?thesis by (intro exI [of _ False] exI [of _ s']) auto
  qed
next
  from extract_due_future [OF assms, of now]
  show "\<exists>b s'. extract_due now s = Inr (b, s')
            \<and> live s' = filter (\<lambda>t. now < deadline t) (live s)"
    by blast
qed

theorem compaction_keeps_order_witness:
  "wf demo_store
   \<and> ((\<exists>found s'. delete_task 2 demo_store = Inr (found, s')
            \<and> (if found
                 then \<exists>xs t ys. live demo_store = xs @ t # ys \<and> task_id t = 2 \<and> live s' = xs @ ys
                 else live s' = live demo_store))
       \<and> (\<exists>b s'. extract_due 50 demo_store = Inr (b, s')
            \<and> live s' = filter (\<lambda>t. 50 < deadline t) (live demo_store)))
   \<and> live_after (delete_task 2 demo_store) = Some [task_a, task_c]
   \<and> live_after (extract_due 50 demo_store) = Some [task_a, task_b]"
proof -
  have a: "live_after (delete_task 2 demo_store) = Some [task_a, task_c]"
    by code_simp
  have b: "live_after (extract_due 50 demo_store) = Some [task_a, task_b]"
    by code_simp
  show ?thesis
    using compaction_keeps_order [OF wf_demo_store, of 2 50] wf_demo_store a b by blast
qed

section \<open>The deadline selector\<close>

lemma nd_list_due:
  "\<exists>t \<in> set xs. deadline t \<le> now \<Longrightarrow> nd_list now xs best = now"
  by (induction xs arbitrary: best) auto

lemma nd_list_future:
  "\<forall>t \<in> set xs. now < deadline t \<and> deadline t \<noteq> 0 \<Longrightarrow>
   nd_list now xs best =
     (if xs = [] then best
      else if best = 0 then Min (deadline ` set xs)
      else min best (Min (deadline ` set xs)))"
proof (induction xs arbitrary: best)
  case Nil
  then show ?case by simp
next
  case (Cons t xs)
  let ?b = "if best = 0 \<or> deadline t < best then deadline t else best"
  have nz: "?b \<noteq> 0" using Cons.prems by auto
  have step: "nd_list now (t # xs) best = nd_list now xs ?b"
    using Cons.prems by simp
  have ih: "nd_list now xs ?b =
      (if xs = [] then ?b else min ?b (Min (deadline ` set xs)))"
    using Cons.IH [of ?b] Cons.prems nz by simp
  show ?case
  proof (cases "xs = []")
    case True
    then show ?thesis unfolding step ih by auto
  next
    case False
    then have m: "Min (deadline ` set (t # xs)) = min (deadline t) (Min (deadline ` set xs))"
      by simp
    show ?thesis unfolding step ih m using False by (auto simp: min_def)
  qed
qed

lemma nd_list_zero_iff:
  assumes "0 < now"
  shows "(nd_list now xs 0 = 0) = (xs = [])"
proof (cases "\<exists>t \<in> set xs. deadline t \<le> now")
  case True
  then have "nd_list now xs 0 = now" by (rule nd_list_due)
  with True assms show ?thesis by auto
next
  case False
  then have fut: "\<forall>t \<in> set xs. now < deadline t \<and> deadline t \<noteq> 0"
    using assms by auto
  show ?thesis
  proof (cases "xs = []")
    case True
    then show ?thesis by simp
  next
    case ne: False
    have "Min (deadline ` set xs) \<in> deadline ` set xs"
      using ne by (intro Min_in) auto
    then have "Min (deadline ` set xs) \<noteq> 0"
      using fut by auto
    then show ?thesis
      using ne nd_list_future [OF fut, of 0] by simp
  qed
qed

text \<open>
  C4, amended. On an empty store \<^verbatim>\<open>next_deadline\<close> returns 0; when some live task has
  deadline at most \<open>now\<close> it returns \<open>now\<close>, whatever the deadlines of the due tasks
  are; when every live task lies in the future and \<open>now\<close> is not negative (more
  generally, when no live task has deadline 0), it returns the least deadline.
\<close>

theorem next_deadline_cases:
  assumes "wf s"
  shows "(live s = [] \<longrightarrow> next_deadline now s = Inr 0)
       \<and> ((\<exists>t \<in> set (live s). deadline t \<le> now) \<longrightarrow> next_deadline now s = Inr now)
       \<and> (live s \<noteq> [] \<and> (\<forall>t \<in> set (live s). now < deadline t) \<and> 0 \<le> now
            \<longrightarrow> next_deadline now s = Inr (Min (deadline ` set (live s))))
       \<and> (live s \<noteq> [] \<and> (\<forall>t \<in> set (live s). now < deadline t \<and> deadline t \<noteq> 0)
            \<longrightarrow> next_deadline now s = Inr (Min (deadline ` set (live s))))"
proof (intro conjI impI)
  assume "live s = []"
  then show "next_deadline now s = Inr 0"
    by (simp add: next_deadline_live [OF assms])
next
  assume "\<exists>t \<in> set (live s). deadline t \<le> now"
  then show "next_deadline now s = Inr now"
    by (simp add: next_deadline_live [OF assms] nd_list_due)
next
  assume a: "live s \<noteq> [] \<and> (\<forall>t \<in> set (live s). now < deadline t \<and> deadline t \<noteq> 0)"
  then show "next_deadline now s = Inr (Min (deadline ` set (live s)))"
    by (simp add: next_deadline_live [OF assms] nd_list_future)
next
  assume "live s \<noteq> [] \<and> (\<forall>t \<in> set (live s). now < deadline t) \<and> 0 \<le> now"
  then have "live s \<noteq> []" "\<forall>t \<in> set (live s). now < deadline t \<and> deadline t \<noteq> 0"
    by auto
  then show "next_deadline now s = Inr (Min (deadline ` set (live s)))"
    by (simp add: next_deadline_live [OF assms] nd_list_future)
qed

theorem next_deadline_cases_witness:
  "wf init_store \<and> live init_store = [] \<and> next_deadline 10 init_store = Inr 0
   \<and> wf demo_store
   \<and> (\<exists>t \<in> set (live demo_store). deadline t \<le> 60) \<and> next_deadline 60 demo_store = Inr 60
   \<and> map deadline (live demo_store) = [100, 200, 50]
   \<and> (0::int) \<le> 10 \<and> next_deadline 10 demo_store = Inr 50"
proof -
  have i: "live init_store = []"
    by (simp add: live_def init_store_def)
  have d: "\<exists>t \<in> set (live demo_store). deadline t \<le> 60"
    by (simp add: live_demo_store task_a_def task_b_def task_c_def)
  have f: "\<forall>t \<in> set (live demo_store). 10 < deadline t \<and> deadline t \<noteq> 0"
    by (simp add: live_demo_store task_a_def task_b_def task_c_def)
  have ne: "live demo_store \<noteq> []"
    by (simp add: live_demo_store)
  have m: "Min (deadline ` set (live demo_store)) = 50"
    by (simp add: live_demo_store task_a_def task_b_def task_c_def)
  have l: "map deadline (live demo_store) = [100, 200, 50]"
    by (simp add: live_demo_store task_a_def task_b_def task_c_def)
  show ?thesis
    using next_deadline_cases [OF wf_init_store, of 10]
      next_deadline_cases [OF wf_demo_store, of 60]
      next_deadline_cases [OF wf_demo_store, of 10]
      i d f ne m l wf_init_store wf_demo_store
    by simp
qed

text \<open>
  The claim as it stands fails before the epoch, where the initial value 0 of \<^verbatim>\<open>best\<close>
  is also a deadline: at \<open>now = - 1\<close> (the value \<^verbatim>\<open>time\<close> returns when it fails), with
  live deadlines 0 and 5, both in the future, the result is 5 and not the least, 0.
\<close>

theorem next_deadline_min_counterexample:
  "wf epoch_store \<and> map deadline (live epoch_store) = [0, 5]
   \<and> Min (deadline ` set (live epoch_store)) = 0
   \<and> next_deadline (- 1) epoch_store = Inr 5"
proof -
  have w: "wf epoch_store"
    by (simp add: wf_def epoch_store_def MAX_TASKS_def)
  have l: "live epoch_store = [task_a\<lparr>deadline := 0\<rparr>, task_b\<lparr>deadline := 5\<rparr>]"
    by (simp add: live_def epoch_store_def)
  have n: "next_deadline (- 1) epoch_store = Inr 5"
    by (simp add: next_deadline_live [OF w] l)
  show ?thesis using w n by (simp add: l)
qed

text \<open>
  C10. At a time \<open>now > 0\<close>, \<^verbatim>\<open>next_deadline\<close> returns 0 exactly when the store is
  empty, a due task makes it return \<open>now\<close>, and the scheduler at the top of its loop
  takes the two-second poll sleep exactly on an empty store.
\<close>

theorem poll_only_when_empty:
  assumes "wf (st y)" and "pc y = Top" and "0 < now"
  shows "((next_deadline now (st y) = Inr 0) = (task_count (st y) = 0))
       \<and> ((task_count (st y) = 0) = (live (st y) = []))
       \<and> ((\<exists>t \<in> set (live (st y)). deadline t \<le> now) \<longrightarrow> next_deadline now (st y) = Inr now)
       \<and> ((step (Sched_Poll now now') y = Inr (Polled 2, y)) = (task_count (st y) = 0))"
proof -
  have e: "(task_count (st y) = 0) = (live (st y) = [])"
    using length_live [OF assms(1)] by auto
  have n: "next_deadline now (st y) = Inr (nd_list now (live (st y)) 0)"
    by (rule next_deadline_live [OF assms(1)])
  have z: "(next_deadline now (st y) = Inr 0) = (task_count (st y) = 0)"
    unfolding n e using nd_list_zero_iff [OF assms(3)] by simp
  have d: "(\<exists>t \<in> set (live (st y)). deadline t \<le> now) \<longrightarrow> next_deadline now (st y) = Inr now"
    unfolding n by (simp add: nd_list_due)
  have p: "(step (Sched_Poll now now') y = Inr (Polled 2, y)) = (task_count (st y) = 0)"
    using assms(2) z by (simp add: n)
  show ?thesis using z e d p by blast
qed

theorem poll_only_when_empty_witness:
  "wf demo_store \<and> (0::int) < 60
   \<and> next_deadline 60 demo_store = Inr 60
   \<and> step (Sched_Poll 60 60) \<lparr>st = demo_store, pc = Top, running = []\<rparr>
       \<noteq> Inr (Polled 2, \<lparr>st = demo_store, pc = Top, running = []\<rparr>)
   \<and> wf init_store
   \<and> step (Sched_Poll 60 60) \<lparr>st = init_store, pc = Top, running = []\<rparr>
       = Inr (Polled 2, \<lparr>st = init_store, pc = Top, running = []\<rparr>)"
proof -
  have d: "\<exists>t \<in> set (live demo_store). deadline t \<le> 60"
    by (simp add: live_demo_store task_a_def task_b_def task_c_def)
  have c: "task_count demo_store \<noteq> 0" "task_count init_store = 0"
    by (simp_all add: demo_store_def init_store_def)
  show ?thesis
    using poll_only_when_empty [of "\<lparr>st = demo_store, pc = Top, running = []\<rparr>" 60 60]
      poll_only_when_empty [of "\<lparr>st = init_store, pc = Top, running = []\<rparr>" 60 60]
      d c wf_demo_store wf_init_store
    by simp
qed

section \<open>Capacity and bounds\<close>

text \<open>
  C8. The task count stays between 0 and \<^verbatim>\<open>MAX_TASKS\<close> = 256: it is so at program
  start, and loading, adding, deleting and extracting keep it so; none of them, nor the
  listing or the deadline selector, reaches outside the task array (the only error left
  is the refusal of an addition at capacity).
\<close>

theorem task_count_in_bounds:
  assumes "wf s"
  shows "0 \<le> task_count s \<and> task_count s \<le> 256
       \<and> wf init_store
       \<and> (\<exists>s'. load_tasks file s = Inr s' \<and> wf s')
       \<and> (add_task ttl cat pr dl s = Inl CapacityExceeded
            \<or> (\<exists>i s'. add_task ttl cat pr dl s = Inr (i, s') \<and> wf s'))
       \<and> (\<exists>found s'. delete_task ident s = Inr (found, s') \<and> wf s')
       \<and> (\<exists>b s'. extract_due now s = Inr (b, s') \<and> wf s')
       \<and> (\<exists>rows. view_tasks s = Inr rows)
       \<and> (\<exists>nd. next_deadline now s = Inr nd)"
proof (intro conjI)
  show "0 \<le> task_count s" "task_count s \<le> 256"
    using assms by (simp_all add: wf_def MAX_TASKS_def)
  show "wf init_store" by (rule wf_init_store)
  show "\<exists>s'. load_tasks file s = Inr s' \<and> wf s'"
    using assms by (rule load_tasks_wf)
  show "add_task ttl cat pr dl s = Inl CapacityExceeded
            \<or> (\<exists>i s'. add_task ttl cat pr dl s = Inr (i, s') \<and> wf s')"
  proof (cases "task_count s < MAX_TASKS")
    case True
    with add_task_live [OF assms, of ttl cat pr dl] show ?thesis by blast
  next
    case False
    then show ?thesis by (simp add: add_task_full)
  qed
  show "\<exists>found s'. delete_task ident s = Inr (found, s') \<and> wf s'"
    using delete_task_live [OF assms, of ident] by blast
  show "\<exists>b s'. extract_due now s = Inr (b, s') \<and> wf s'"
    using extract_due_live [OF assms, of now] by blast
  show "\<exists>rows. view_tasks s = Inr rows"
    by (simp add: view_tasks_live [OF assms])
  show "\<exists>nd. next_deadline now s = Inr nd"
    by (simp add: next_deadline_live [OF assms])
qed

theorem task_count_in_bounds_witness:
  "wf demo_store
   \<and> (\<exists>s'. load_tasks (Some [Some (7, ''t'', ''c'', 1, 10), None]) demo_store = Inr s' \<and> wf s')
   \<and> (\<exists>i s'. add_task ''gym'' ''Personal'' 3 300 demo_store = Inr (i, s') \<and> wf s')
   \<and> (\<exists>found s'. delete_task 2 demo_store = Inr (found, s') \<and> wf s')
   \<and> (\<exists>b s'. extract_due 100 demo_store = Inr (b, s') \<and> wf s')"
proof -
  have "add_task ''gym'' ''Personal'' 3 300 demo_store \<noteq> Inl CapacityExceeded"
    by code_simp
  then show ?thesis
    using task_count_in_bounds [OF wf_demo_store,
        of "Some [Some (7, ''t'', ''c'', 1, 10), None]" "''gym''" "''Personal''" 3 300 2 100]
      wf_demo_store
    by simp
qed

section \<open>The countdown\<close>

lemma item_loop_slice:
  "0 \<le> i \<Longrightarrow> n \<le> int (length its) \<Longrightarrow>
   item_loop its n i out = Inr (out @ map Item (slice its i n))"
proof (induction its n i out rule: item_loop.induct)
  case (1 its n i out)
  show ?case
  proof (cases "i < n")
    case True
    with 1 show ?thesis
      by (subst item_loop.simps) (simp add: rd_ok slice_step)
  next
    case False
    with 1 show ?thesis
      by (subst item_loop.simps) (simp add: slice_done)
  qed
qed

lemma announce_loop_slice:
  "0 \<le> i \<Longrightarrow> n \<le> int (length its) \<Longrightarrow>
   announce_loop its n secs i out = Inr (out @ map (announcement secs) (slice its i n))"
proof (induction its n secs i out rule: announce_loop.induct)
  case (1 its n secs i out)
  show ?case
  proof (cases "i < n")
    case True
    with 1 show ?thesis
      by (subst announce_loop.simps) (simp add: rd_ok slice_step announcement_def)
  next
    case False
    with 1 show ?thesis
      by (subst announce_loop.simps) (simp add: slice_done)
  qed
qed

lemma batch_tasks_slice: "batch_tasks (Some dc) = slice (items dc) 0 (count dc)"
  by (simp add: batch_tasks_def slice_def)

lemma stage_loop_step:
  assumes "count dc \<le> int (length (items dc))"
      and "rd intervals k = Inr iv" and "rd announce_secs k = Inr secs" and "k < 5"
  shows "stage_loop dc k out =
     stage_loop dc (k + 1) (out @ Sleep iv # map (announcement secs) (batch_tasks (Some dc)))"
  using assms
  by (subst stage_loop.simps) (simp add: announce_loop_slice batch_tasks_slice)

lemma stage_loop_trace:
  assumes "count dc \<le> int (length (items dc))"
  shows "stage_loop dc 0 out =
     Inr (out @ (Sleep 30 # map (announcement 30) (batch_tasks (Some dc)))
          @ (Sleep 10 # map (announcement 20) (batch_tasks (Some dc)))
          @ (Sleep 15 # map (announcement 5) (batch_tasks (Some dc)))
          @ (Sleep 4 # map (announcement 1) (batch_tasks (Some dc)))
          @ (Sleep 1 # map (announcement 0) (batch_tasks (Some dc))))"
proof -
  let ?b = "batch_tasks (Some dc)"
  have "stage_loop dc 0 out = stage_loop dc 1 (out @ Sleep 30 # map (announcement 30) ?b)"
    using stage_loop_step [OF assms, of 0 30 30 out]
    by (simp add: rd_def intervals_def announce_secs_def)
  also have "\<dots> = stage_loop dc 2 ((out @ Sleep 30 # map (announcement 30) ?b)
      @ Sleep 10 # map (announcement 20) ?b)"
    using stage_loop_step [OF assms, of 1 10 20]
    by (simp add: rd_def intervals_def announce_secs_def)
  also have "\<dots> = stage_loop dc 3 (((out @ Sleep 30 # map (announcement 30) ?b)
      @ Sleep 10 # map (announcement 20) ?b) @ Sleep 15 # map (announcement 5) ?b)"
    using stage_loop_step [OF assms, of 2 15 5]
    by (simp add: rd_def intervals_def announce_secs_def)
  also have "\<dots> = stage_loop dc 4 ((((out @ Sleep 30 # map (announcement 30) ?b)
      @ Sleep 10 # map (announcement 20) ?b) @ Sleep 15 # map (announcement 5) ?b)
      @ Sleep 4 # map (announcement 1) ?b)"
    using stage_loop_step [OF assms, of 3 4 1]
    by (simp add: rd_def intervals_def announce_secs_def)
  also have "\<dots> = stage_loop dc 5 (((((out @ Sleep 30 # map (announcement 30) ?b)
      @ Sleep 10 # map (announcement 20) ?b) @ Sleep 15 # map (announcement 5) ?b)
      @ Sleep 4 # map (announcement 1) ?b) @ Sleep 1 # map (announcement 0) ?b)"
    using stage_loop_step [OF assms, of 4 1 0]
    by (simp add: rd_def intervals_def announce_secs_def)
  also have "\<dots> = Inr (((((out @ Sleep 30 # map (announcement 30) ?b)
      @ Sleep 10 # map (announcement 20) ?b) @ Sleep 15 # map (announcement 5) ?b)
      @ Sleep 4 # map (announcement 1) ?b) @ Sleep 1 # map (announcement 0) ?b)"
    by (subst stage_loop.simps) simp
  finally show ?thesis by simp
qed

lemma reminder_thread_fn_trace:
  assumes "0 < count dc" and "count dc \<le> int (length (items dc))"
  shows "reminder_thread_fn (Some dc) =
     Inr (Header (count dc) # map Item (batch_tasks (Some dc))
          @ (Sleep 30 # map (announcement 30) (batch_tasks (Some dc)))
          @ (Sleep 10 # map (announcement 20) (batch_tasks (Some dc)))
          @ (Sleep 15 # map (announcement 5) (batch_tasks (Some dc)))
          @ (Sleep 4 # map (announcement 1) (batch_tasks (Some dc)))
          @ (Sleep 1 # map (announcement 0) (batch_tasks (Some dc)))
          @ [Finished])"
  using assms
  by (simp add: reminder_thread_fn_def item_loop_slice stage_loop_trace batch_tasks_slice)

lemma reminder_thread_fn_total:
  "count dc \<le> int (length (items dc)) \<Longrightarrow> \<exists>evs. reminder_thread_fn (Some dc) = Inr evs"
proof (cases "0 < count dc")
  case True
  assume "count dc \<le> int (length (items dc))"
  with True show ?thesis by (simp add: reminder_thread_fn_trace)
next
  case False
  then show ?thesis by (simp add: reminder_thread_fn_def)
qed

lemma sleeps_append: "sleeps (xs @ ys) = sleeps xs @ sleeps ys"
  by (induction xs rule: sleeps.induct) auto

lemma sleeps_Item: "sleeps (map Item ts) = []"
  by (induction ts) auto

lemma sleeps_announcement: "sleeps (map (announcement secs) ts) = []"
  by (induction ts) (auto simp: announcement_def)

lemma stamps_append:
  "stamps clk (xs @ ys) = stamps clk xs @ stamps (clk + sum_list (sleeps xs)) ys"
  by (induction clk xs rule: stamps.induct) (auto simp: add.assoc)

lemma stamps_Item: "stamps clk (map Item ts) = map (\<lambda>t. (clk, Item t)) ts"
  by (induction ts) auto

lemma stamps_announcement:
  "stamps clk (map (announcement secs) ts) = map (\<lambda>t. (clk, announcement secs t)) ts"
  by (induction ts) (auto simp: announcement_def)

lemma filter_stamped_Item: "filter is_announcement (map (\<lambda>t. (clk, Item t)) ts) = []"
  by (induction ts) auto

lemma filter_stamped_announcement:
  "filter is_announcement (map (\<lambda>t. (clk, announcement secs t)) ts)
     = map (\<lambda>t. (clk, announcement secs t)) ts"
  by (induction ts) (auto simp: announcement_def)

text \<open>
  C3. For a batch of at least one task, the notifier sleeps 30, 10, 15, 4 and 1 seconds,
  60 in all; on a clock that starts at 0 and advances by the sleeps, its announcements
  come at 30, 40, 55, 59 and 60 and say 30, 20, 5 and 1 seconds left and, last, that the
  deadline is reached, each of the five once for every task of the batch, in the order
  of the batch; the thread is over at 60.
\<close>

theorem countdown_stages:
  assumes "0 < count dc" and "count dc \<le> int (length (items dc))"
  shows "\<exists>evs. reminder_thread_fn (Some dc) = Inr evs
     \<and> sleeps evs = [30, 10, 15, 4, 1] \<and> sum_list (sleeps evs) = 60
     \<and> filter is_announcement (stamps 0 evs) =
         map (\<lambda>t. (30, Closing (title t) 30)) (batch_tasks (Some dc))
       @ map (\<lambda>t. (40, Closing (title t) 20)) (batch_tasks (Some dc))
       @ map (\<lambda>t. (55, Closing (title t) 5)) (batch_tasks (Some dc))
       @ map (\<lambda>t. (59, Closing (title t) 1)) (batch_tasks (Some dc))
       @ map (\<lambda>t. (60, Final (title t))) (batch_tasks (Some dc))
     \<and> last (stamps 0 evs) = (60, Finished)"
proof -
  let ?b = "batch_tasks (Some dc)"
  let ?evs = "Header (count dc) # map Item ?b
          @ (Sleep 30 # map (announcement 30) ?b)
          @ (Sleep 10 # map (announcement 20) ?b)
          @ (Sleep 15 # map (announcement 5) ?b)
          @ (Sleep 4 # map (announcement 1) ?b)
          @ (Sleep 1 # map (announcement 0) ?b)
          @ [Finished]"
  have r: "reminder_thread_fn (Some dc) = Inr ?evs"
    using reminder_thread_fn_trace [OF assms] by simp
  have s: "sleeps ?evs = [30, 10, 15, 4, 1]"
    by (simp add: sleeps_append sleeps_Item sleeps_announcement)
  have a: "filter is_announcement (stamps 0 ?evs) =
         map (\<lambda>t. (30, announcement 30 t)) ?b
       @ map (\<lambda>t. (40, announcement 20 t)) ?b
       @ map (\<lambda>t. (55, announcement 5 t)) ?b
       @ map (\<lambda>t. (59, announcement 1 t)) ?b
       @ map (\<lambda>t. (60, announcement 0 t)) ?b"
    by (simp add: stamps_append stamps_Item stamps_announcement sleeps_Item sleeps_announcement
        filter_stamped_Item filter_stamped_announcement)
  have l: "last (stamps 0 ?evs) = (60, Finished)"
    by (simp add: stamps_append stamps_Item stamps_announcement sleeps_Item sleeps_announcement)
  show ?thesis
    unfolding r using s a l by (simp add: announcement_def)
qed

theorem countdown_stages_witness:
  "(0::int) < count demo_batch \<and> count demo_batch \<le> int (length (items demo_batch))
   \<and> (\<exists>evs. reminder_thread_fn (Some demo_batch) = Inr evs
        \<and> sleeps evs = [30, 10, 15, 4, 1] \<and> sum_list (sleeps evs) = 60
        \<and> filter is_announcement (stamps 0 evs) =
            [(30, Closing ''report'' 30), (30, Closing ''call'' 30),
             (40, Closing ''report'' 20), (40, Closing ''call'' 20),
             (55, Closing ''report'' 5), (55, Closing ''call'' 5),
             (59, Closing ''report'' 1), (59, Closing ''call'' 1),
             (60, Final ''report''), (60, Final ''call'')])"
proof -
  have c: "(0::int) < count demo_batch" "count demo_batch \<le> int (length (items demo_batch))"
    by (simp_all add: demo_batch_def)
  have b: "batch_tasks (Some demo_batch) = [task_a, task_c]"
    by (simp add: batch_tasks_def demo_batch_def)
  show ?thesis
    using countdown_stages [OF c] c
    by (auto simp: b task_a_def task_c_def)
qed

section \<open>Steps and runs\<close>

lemma added_ids_Cons: "added_ids (out # outs) = added_ids [out] @ added_ids outs"
  by (cases out) simp_all

lemma added_tasks_Cons: "added_tasks (out # outs) = added_tasks [out] @ added_tasks outs"
  by (cases out) simp_all

lemma added_ids_tasks: "added_ids outs = map task_id (added_tasks outs)"
  by (induction outs rule: added_ids.induct) simp_all

lemma count_adds_Cons: "count_adds as \<le> count_adds (a # as)"
  by (cases a) simp_all

lemma step_add:
  assumes "sys_wf y"
  shows "\<exists>out y'. step (Add ttl cat pr dl) y = Inr (out, y') \<and> sys_wf y'
      \<and> ((\<exists>t. out = Added t \<and> task_id t = next_id (st y)
              \<and> next_id (st y') = next_id (st y) + 1 \<and> live (st y') = live (st y) @ [t])
         \<or> (added_tasks [out] = [] \<and> next_id (st y') = next_id (st y)
              \<and> set (live (st y')) \<subseteq> set (live (st y))))"
proof (cases "task_count (st y) < MAX_TASKS")
  case False
  then have "step (Add ttl cat pr dl) y = Inr (Rejected, y)"
    by (simp add: add_task_full)
  with assms show ?thesis by simp
next
  case True
  let ?t = "\<lparr>task_id = next_id (st y), title = take 127 ttl,
            category = take 31 cat, priority = pr, deadline = dl\<rparr>"
  from assms have w: "wf (st y)" by (simp add: sys_wf_def)
  from add_task_live [OF w True, of ttl cat pr dl] obtain s' where
    h: "add_task ttl cat pr dl (st y) = Inr (next_id (st y), s')" "wf s'"
       "next_id s' = next_id (st y) + 1" "live s' = live (st y) @ [?t]"
    by blast
  have s: "step (Add ttl cat pr dl) y = Inr (Added ?t, y\<lparr>st := s'\<rparr>)"
    by (simp add: h(1))
  have "sys_wf (y\<lparr>st := s'\<rparr>)"
    using assms h(2) by (simp add: sys_wf_def)
  with s h show ?thesis by simp
qed

lemma step_delete:
  assumes "sys_wf y"
  shows "\<exists>out y'. step (Delete ident) y = Inr (out, y') \<and> sys_wf y'
      \<and> added_tasks [out] = [] \<and> next_id (st y') = next_id (st y)
      \<and> set (live (st y')) \<subseteq> set (live (st y))"
proof -
  from assms have w: "wf (st y)" by (simp add: sys_wf_def)
  from delete_task_live [OF w, of ident] obtain found s' where
    h: "delete_task ident (st y) = Inr (found, s')" "wf s'" "next_id s' = next_id (st y)"
       "\<not> found \<longrightarrow> s' = st y"
       "found \<longrightarrow> (\<exists>xs t ys. live (st y) = xs @ t # ys \<and> task_id t = ident
            \<and> ident \<notin> task_id ` set xs \<and> live s' = xs @ ys)"
    by blast
  have sub: "set (live s') \<subseteq> set (live (st y))"
    using h(4,5) by (cases found) auto
  have s: "step (Delete ident) y = Inr (Deleted found, y\<lparr>st := s'\<rparr>)"
    by (simp add: h(1))
  have "sys_wf (y\<lparr>st := s'\<rparr>)"
    using assms h(2) by (simp add: sys_wf_def)
  with s h(3) sub show ?thesis by simp
qed

lemma step_poll:
  assumes "sys_wf y"
  shows "\<exists>out y'. step (Sched_Poll now_nd now) y = Inr (out, y') \<and> sys_wf y'
      \<and> added_tasks [out] = [] \<and> st y' = st y"
proof (cases "pc y")
  case Top
  from assms have w: "wf (st y)" by (simp add: sys_wf_def)
  show ?thesis
    using assms Top by (simp add: next_deadline_live [OF w] sys_wf_def)
next
  case Waiting
  with assms show ?thesis by simp
next
  case (Handoff dc)
  with assms show ?thesis by simp
qed

lemma step_wake:
  assumes "sys_wf y"
  shows "\<exists>out y'. step (Sched_Wake tnow) y = Inr (out, y') \<and> sys_wf y'
      \<and> added_tasks [out] = [] \<and> next_id (st y') = next_id (st y)
      \<and> set (live (st y')) \<subseteq> set (live (st y))"
proof (cases "pc y")
  case Waiting
  from assms have w: "wf (st y)" by (simp add: sys_wf_def)
  from extract_due_live [OF w, of tnow] obtain b s' where
    h: "extract_due tnow (st y) = Inr (b, s')"
       "live s' = filter (\<lambda>t. \<not> deadline t \<le> tnow) (live (st y))" "wf s'"
       "next_id s' = next_id (st y)"
       "\<forall>dc. b = Some dc \<longrightarrow> 0 < count dc \<and> count dc = int (length (items dc))"
    by blast
  have sub: "set (live s') \<subseteq> set (live (st y))"
    unfolding h(2) by auto
  show ?thesis
  proof (cases b)
    case None
    then have "step (Sched_Wake tnow) y = Inr (NothingDue, y\<lparr>st := s', pc := Top\<rparr>)"
      using Waiting h(1) by simp
    moreover have "sys_wf (y\<lparr>st := s', pc := Top\<rparr>)"
      using h(3) by (simp add: sys_wf_def)
    ultimately show ?thesis using h(4) sub by simp
  next
    case (Some dc)
    then have "step (Sched_Wake tnow) y = Inr (Extracted dc, y\<lparr>st := s', pc := Handoff dc\<rparr>)"
      using Waiting h(1) by simp
    moreover have "sys_wf (y\<lparr>st := s', pc := Handoff dc\<rparr>)"
      using h(3,5) Some by (simp add: sys_wf_def)
    ultimately show ?thesis using h(4) sub by simp
  qed
next
  case Top
  with assms show ?thesis by simp
next
  case (Handoff dc)
  with assms show ?thesis by simp
qed

lemma step_spawn:
  assumes "sys_wf y"
  shows "\<exists>out y'. step (Sched_Spawn ok) y = Inr (out, y') \<and> sys_wf y'
      \<and> added_tasks [out] = [] \<and> st y' = st y"
proof (cases "pc y")
  case (Handoff dc)
  with assms have "count dc \<le> int (length (items dc))"
    by (simp add: sys_wf_def)
  then obtain evs where "reminder_thread_fn (Some dc) = Inr evs"
    using reminder_thread_fn_total by blast
  with assms Handoff show ?thesis
    by (cases ok) (simp_all add: sys_wf_def)
next
  case Top
  with assms show ?thesis by simp
next
  case Waiting
  with assms show ?thesis by simp
qed

lemma step_notify:
  assumes "sys_wf y"
  shows "\<exists>out y'. step (Notify k) y = Inr (out, y') \<and> sys_wf y'
      \<and> added_tasks [out] = [] \<and> st y' = st y"
proof (cases "k < length (running y)")
  case True
  with assms show ?thesis
    by (cases "running y ! k") (simp_all add: sys_wf_def)
next
  case False
  with assms show ?thesis by simp
qed

lemma step_sys_wf:
  assumes "sys_wf y"
  shows "\<exists>out y'. step a y = Inr (out, y') \<and> sys_wf y'
      \<and> ((\<exists>t. out = Added t \<and> 0 < count_adds [a] \<and> task_id t = next_id (st y)
              \<and> next_id (st y') = next_id (st y) + 1 \<and> live (st y') = live (st y) @ [t])
         \<or> (added_tasks [out] = [] \<and> next_id (st y') = next_id (st y)
              \<and> set (live (st y')) \<subseteq> set (live (st y))))"
proof (cases a)
  case (Add ttl cat pr dl)
  with step_add [OF assms, of ttl cat pr dl] show ?thesis by auto
next
  case (Delete ident)
  with step_delete [OF assms, of ident] show ?thesis by auto
next
  case (Sched_Poll now_nd now)
  with step_poll [OF assms, of now_nd now] show ?thesis by auto
next
  case (Sched_Wake tnow)
  with step_wake [OF assms, of tnow] show ?thesis by auto
next
  case (Sched_Spawn ok)
  with step_spawn [OF assms, of ok] show ?thesis by auto
next
  case (Notify k)
  with step_notify [OF assms, of k] show ?thesis by auto
qed

section \<open>The id counter along a run\<close>

lemma sint_succ:
  fixes v :: "32 word"
  assumes "sint v < 2 ^ 31 - 1"
  shows "sint (v + 1) = sint v + 1"
proof -
  have lo: "- (2 ^ 31) \<le> sint v" using sint_ge [of v] by simp
  have "sint (v + 1) = signed_take_bit 31 (sint v + 1)"
    by (simp add: sint_word_add)
  also have "\<dots> = sint v + 1"
    using lo assms by (intro signed_take_bit_int_eq_self) auto
  finally show ?thesis .
qed

lemma sint_add_of_nat:
  fixes w :: "32 word"
  shows "sint w + int k < 2 ^ 31 \<Longrightarrow> sint (w + of_nat k) = sint w + int k"
proof (induction k)
  case 0
  then show ?case by simp
next
  case (Suc k)
  then have ih: "sint (w + of_nat k) = sint w + int k" by simp
  have e: "w + of_nat (Suc k) = (w + of_nat k) + 1" by simp
  have "sint ((w + of_nat k) + 1) = sint (w + of_nat k) + 1"
    using Suc.prems ih by (intro sint_succ) simp
  then have "sint (w + of_nat (Suc k)) = sint w + int k + 1"
    unfolding e ih .
  then show ?case by (simp add: add.assoc)
qed

lemma of_nat_inj_32:
  fixes w :: "32 word"
  assumes "j < 2 ^ 32" and "k < 2 ^ 32" and "w + of_nat j = w + of_nat k"
  shows "j = k"
proof -
  from assms(3) have "(of_nat j :: 32 word) = of_nat k" by simp
  then have "take_bit 32 j = take_bit 32 k"
    by (simp add: word_of_nat_eq_iff)
  then show ?thesis
    using assms(1,2) by (simp add: take_bit_nat_eq_self)
qed

lemma counter_ids_distinct:
  fixes w :: "32 word"
  assumes "m \<le> 2 ^ 32"
  shows "distinct (map (\<lambda>k. w + of_nat k) [0..<m])"
proof -
  have "inj_on (\<lambda>k. w + of_nat k) (set [0..<m])"
  proof (rule inj_onI)
    fix j k
    assume "j \<in> set [0..<m]" "k \<in> set [0..<m]" "w + of_nat j = w + of_nat k"
    with assms show "j = k"
      by (intro of_nat_inj_32 [of j k w]) auto
  qed
  then show ?thesis by (simp add: distinct_map)
qed

lemma counter_ids_increasing:
  fixes w :: "32 word"
  assumes "sint w + int m < 2 ^ 31 + 1"
  shows "sorted_wrt (<s) (map (\<lambda>k. w + of_nat k) [0..<m])"
proof -
  have "sorted_wrt (\<lambda>j k. (w + of_nat j) <s (w + of_nat k)) [0..<m]"
  proof (rule sorted_wrt_mono_rel [of _ "(<)"])
    fix j k
    assume "j \<in> set [0..<m]" "k \<in> set [0..<m]" "j < k"
    with assms have "sint (w + of_nat j) = sint w + int j" "sint (w + of_nat k) = sint w + int k"
      by (simp_all add: sint_add_of_nat)
    with \<open>j < k\<close> show "(w + of_nat j) <s (w + of_nat k)"
      by (simp add: word_sless_alt)
  next
    show "sorted_wrt (<) [0..<m]" by simp
  qed
  then show ?thesis by (simp add: sorted_wrt_map)
qed

lemma counter_ids_above:
  fixes w :: "32 word"
  assumes "sint w + int m < 2 ^ 31 + 1" and "i \<in> set (map (\<lambda>k. w + of_nat k) [0..<m])"
  shows "w \<le>s i"
proof -
  from assms(2) obtain k where k: "k < m" "i = w + of_nat k" by auto
  with assms(1) have "sint i = sint w + int k"
    by (simp add: sint_add_of_nat)
  then show ?thesis by (simp add: word_sle_eq)
qed

lemma map_upt_Suc_shift: "map f [0..<Suc m] = f 0 # map (\<lambda>k. f (Suc k)) [0..<m]"
proof -
  have "[0..<Suc m] = 0 # map Suc [0..<m]"
    by (simp add: upt_conv_Cons map_Suc_upt del: upt_Suc)
  then show ?thesis by (simp add: comp_def del: upt_Suc)
qed

lemma count_adds_pos: "0 < count_adds [a] \<Longrightarrow> count_adds (a # as) = Suc (count_adds as)"
  by (cases a) simp_all

lemma run_counter:
  "sys_wf y \<Longrightarrow>
   \<exists>outs y'. run acts y = Inr (outs, y') \<and> sys_wf y'
     \<and> length (added_tasks outs) \<le> count_adds acts
     \<and> added_ids outs = map (\<lambda>k. next_id (st y) + of_nat k) [0..<length (added_tasks outs)]
     \<and> next_id (st y') = next_id (st y) + of_nat (length (added_tasks outs))
     \<and> set (live (st y')) \<subseteq> set (live (st y)) \<union> set (added_tasks outs)"
proof (induction acts arbitrary: y)
  case Nil
  then show ?case by simp
next
  case (Cons a as)
  from step_sys_wf [OF Cons.prems, of a] obtain out y1 where
    s: "step a y = Inr (out, y1)" "sys_wf y1"
    and c: "(\<exists>t. out = Added t \<and> 0 < count_adds [a] \<and> task_id t = next_id (st y)
              \<and> next_id (st y1) = next_id (st y) + 1 \<and> live (st y1) = live (st y) @ [t])
         \<or> (added_tasks [out] = [] \<and> next_id (st y1) = next_id (st y)
              \<and> set (live (st y1)) \<subseteq> set (live (st y)))"
    by blast
  from Cons.IH [OF s(2)] obtain outs y2 where
    r: "run as y1 = Inr (outs, y2)" "sys_wf y2"
       "length (added_tasks outs) \<le> count_adds as"
       "added_ids outs = map (\<lambda>k. next_id (st y1) + of_nat k) [0..<length (added_tasks outs)]"
       "next_id (st y2) = next_id (st y1) + of_nat (length (added_tasks outs))"
       "set (live (st y2)) \<subseteq> set (live (st y1)) \<union> set (added_tasks outs)"
    by blast
  have run: "run (a # as) y = Inr (out # outs, y2)"
    by (simp add: s(1) r(1))
  from c show ?case
  proof
    assume "\<exists>t. out = Added t \<and> 0 < count_adds [a] \<and> task_id t = next_id (st y)
              \<and> next_id (st y1) = next_id (st y) + 1 \<and> live (st y1) = live (st y) @ [t]"
    then obtain t where
      t: "out = Added t" "0 < count_adds [a]" "task_id t = next_id (st y)"
         "next_id (st y1) = next_id (st y) + 1" "live (st y1) = live (st y) @ [t]"
      by blast
    have n: "count_adds (a # as) = Suc (count_adds as)"
      using t(2) by (rule count_adds_pos)
    have ids: "added_ids (out # outs)
        = map (\<lambda>k. next_id (st y) + of_nat k) [0..<Suc (length (added_tasks outs))]"
      unfolding map_upt_Suc_shift using t r(4) by (simp add: add.assoc)
    have "length (added_tasks (out # outs)) \<le> count_adds (a # as)"
      using t(1) r(3) n by simp
    moreover have "added_ids (out # outs) = map (\<lambda>k. next_id (st y) + of_nat k)
        [0..<length (added_tasks (out # outs))]"
      using ids t(1) by simp
    moreover have "next_id (st y2)
        = next_id (st y) + of_nat (length (added_tasks (out # outs)))"
      using t(1,4) r(5) by (simp add: add.assoc)
    moreover have "set (live (st y2)) \<subseteq> set (live (st y)) \<union> set (added_tasks (out # outs))"
      using t(1,5) r(6) by auto
    ultimately show ?thesis using run r(2) by blast
  next
    assume o: "added_tasks [out] = [] \<and> next_id (st y1) = next_id (st y)
              \<and> set (live (st y1)) \<subseteq> set (live (st y))"
    then have e: "added_tasks (out # outs) = added_tasks outs"
        "added_ids (out # outs) = added_ids outs"
      using added_tasks_Cons [of out outs] added_ids_Cons [of out outs]
      by (simp_all add: added_ids_tasks)
    have "length (added_tasks (out # outs)) \<le> count_adds (a # as)"
      using r(3) count_adds_Cons [of as a] by (simp add: e)
    moreover have "added_ids (out # outs) = map (\<lambda>k. next_id (st y) + of_nat k)
        [0..<length (added_tasks (out # outs))]"
      using r(4) o by (simp add: e)
    moreover have "next_id (st y2)
        = next_id (st y) + of_nat (length (added_tasks (out # outs)))"
      using r(5) o by (simp add: e)
    moreover have "set (live (st y2)) \<subseteq> set (live (st y)) \<union> set (added_tasks (out # outs))"
      using r(6) o by (auto simp: e)
    ultimately show ?thesis using run r(2) by blast
  qed
qed

section \<open>Ids and extracted tasks over whole runs\<close>

lemma boot_sys_wf: "\<exists>y. boot file = Inr y \<and> sys_wf y"
proof -
  from load_tasks_wf [OF wf_init_store, of "file"] obtain s where
    "load_tasks file init_store = Inr s" "wf s"
    by blast
  then show ?thesis by (simp add: boot_def sys_wf_def)
qed

text \<open>
  C5, amended. In every run of additions, deletions and scheduler and notifier steps from
  a well-formed system, the id counter moves only by the additions, by one for each id it
  gives out; the ids given out are pairwise distinct as long as there are at most \<open>2^32\<close>
  additions, and strictly increasing (as signed numbers, each at least the counter at
  the start) as long as the last of them does not pass 2147483647.
\<close>

theorem added_ids_increasing:
  assumes "sys_wf y"
  shows "\<exists>outs y'. run acts y = Inr (outs, y')
     \<and> next_id (st y') = next_id (st y) + of_nat (length (added_ids outs))
     \<and> (sint (next_id (st y)) + int (count_adds acts) \<le> 2 ^ 31 \<longrightarrow>
          sorted_wrt (<s) (added_ids outs) \<and> (\<forall>i \<in> set (added_ids outs). next_id (st y) \<le>s i))
     \<and> (count_adds acts \<le> 2 ^ 32 \<longrightarrow> distinct (added_ids outs))"
proof -
  from run_counter [OF assms, of acts] obtain outs y' where
    r: "run acts y = Inr (outs, y')"
       "length (added_tasks outs) \<le> count_adds acts"
       "added_ids outs = map (\<lambda>k. next_id (st y) + of_nat k) [0..<length (added_tasks outs)]"
       "next_id (st y') = next_id (st y) + of_nat (length (added_tasks outs))"
    by blast
  have len: "length (added_ids outs) = length (added_tasks outs)"
    by (simp add: added_ids_tasks)
  have a: "next_id (st y') = next_id (st y) + of_nat (length (added_ids outs))"
    using r(4) len by simp
  have b: "sorted_wrt (<s) (added_ids outs) \<and> (\<forall>i \<in> set (added_ids outs). next_id (st y) \<le>s i)"
    if "sint (next_id (st y)) + int (count_adds acts) \<le> 2 ^ 31"
  proof -
    from that r(2) have m: "sint (next_id (st y)) + int (length (added_tasks outs)) < 2 ^ 31 + 1"
      by simp
    show ?thesis
      unfolding r(3) using counter_ids_increasing [OF m] counter_ids_above [OF m] by blast
  qed
  have c: "distinct (added_ids outs)" if "count_adds acts \<le> 2 ^ 32"
  proof -
    from that r(2) have "length (added_tasks outs) \<le> 2 ^ 32" by simp
    then show ?thesis unfolding r(3) by (rule counter_ids_distinct)
  qed
  show ?thesis using r(1) a b c by blast
qed

theorem added_ids_increasing_witness:
  "sys_wf fresh_system
   \<and> sint (next_id (st fresh_system)) + int (count_adds demo_actions) \<le> 2 ^ 31
   \<and> count_adds demo_actions \<le> 2 ^ 32
   \<and> (\<exists>outs y'. run demo_actions fresh_system = Inr (outs, y')
        \<and> sorted_wrt (<s) (added_ids outs) \<and> distinct (added_ids outs))
   \<and> added_ids (outputs_of (run demo_actions fresh_system)) = [1, 2, 3]"
proof -
  have w: "sys_wf fresh_system"
    using wf_init_store by (simp add: sys_wf_def fresh_system_def)
  have n: "count_adds demo_actions = 3"
    by (simp add: demo_actions_def)
  have s: "sint (next_id (st fresh_system)) = 1"
    by (simp add: fresh_system_def init_store_def)
  have e: "added_ids (outputs_of (run demo_actions fresh_system)) = [1, 2, 3]"
    by code_simp
  show ?thesis
    using added_ids_increasing [OF w, of demo_actions] w e
    by (auto simp: n s)
qed

text \<open>
  The claim as it stands fails at the end of the range of \<^verbatim>\<open>int\<close>: after a file whose
  one task has id 2147483646, two additions get the ids 2147483647 and, the counter
  having wrapped, \<open>- 2147483648\<close>.
\<close>

theorem added_ids_wrap_counterexample:
  "added_ids (outputs_of (session (Some [Some (0x7FFFFFFE, ''last'', ''Work'', 1, 100)])
       [Add ''a'' ''Work'' 1 200, Add ''b'' ''Work'' 1 300]))
     = [0x7FFFFFFF, 0x80000000]
   \<and> sint (0x7FFFFFFF :: 32 word) = 2147483647
   \<and> sint (0x80000000 :: 32 word) = - 2147483648
   \<and> \<not> sorted_wrt (<s) [0x7FFFFFFF, 0x80000000 :: 32 word]"
proof -
  have "added_ids (outputs_of (session (Some [Some (0x7FFFFFFE, ''last'', ''Work'', 1, 100)])
       [Add ''a'' ''Work'' 1 200, Add ''b'' ''Work'' 1 300]))
     = [0x7FFFFFFF, 0x80000000]"
    by code_simp
  then show ?thesis by (simp add: word_sless_alt)
qed

section \<open>Ids below the counter and distinct, from the file on\<close>

lemma sint_max_id: "sint (i :: 32 word) = 2147483647 \<Longrightarrow> i = 0x7FFFFFFF"
proof -
  assume "sint i = 2147483647"
  then have "(word_of_int (sint i) :: 32 word) = word_of_int 2147483647" by simp
  then show ?thesis by simp
qed

lemma sint_succ_id:
  fixes i :: "32 word"
  assumes "i \<noteq> 0x7FFFFFFF"
  shows "sint (i + 1) = sint i + 1"
proof -
  have "sint i < 2 ^ 31" using sint_lt [of i] by simp
  moreover have "sint i \<noteq> 2147483647" using assms sint_max_id by blast
  ultimately show ?thesis by (intro sint_succ) simp
qed

lemma live_store_slot:
  assumes "wf s" and "task_count s < MAX_TASKS"
  shows "live (s\<lparr>tasks := (tasks s)[nat (task_count s) := t],
                 task_count := task_count s + 1, next_id := n\<rparr>) = live s @ [t]"
proof -
  have n: "0 \<le> task_count s" "task_count s < int (length (tasks s))"
    using assms by (simp_all add: wf_def)
  have "take (nat (task_count s + 1)) ((tasks s)[nat (task_count s) := t])
      = take (nat (task_count s)) (tasks s) @ [t]"
    using n by (simp add: nat_add_distrib take_Suc_conv_app_nth)
  then show ?thesis by (simp add: live_def)
qed

lemma load_loop_ids:
  "wf s \<Longrightarrow> ids_below s \<Longrightarrow> 0x7FFFFFFF \<notin> set (file_ids ls) \<Longrightarrow>
   \<exists>s'. load_loop ls s = Inr s' \<and> wf s' \<and> ids_below s'
      \<and> (distinct (map task_id (live s) @ file_ids ls) \<longrightarrow> ids_distinct s')"
proof (induction ls arbitrary: s)
  case Nil
  then show ?case by (simp add: ids_distinct_def)
next
  case (Cons l ls)
  show ?case
  proof (cases "task_count s < MAX_TASKS")
    case False
    with Cons.prems show ?thesis by (simp add: ids_distinct_def)
  next
    case True
    show ?thesis
    proof (cases l)
      case None
      with True Cons show ?thesis by simp
    next
      case (Some r)
      obtain i ttl cat pr dl where r: "r = (i, ttl, cat, pr, dl)"
        by (cases r) auto
      let ?t = "\<lparr>task_id = i, title = take 127 ttl, category = take 31 cat,
                      priority = pr, deadline = dl\<rparr>"
      let ?n = "if next_id s \<le>s i then i + 1 else next_id s"
      let ?s = "s\<lparr>tasks := (tasks s)[nat (task_count s) := ?t], task_count := task_count s + 1,
                       next_id := ?n\<rparr>"
      have n: "0 \<le> task_count s" "task_count s < int (length (tasks s))"
        using Cons.prems True by (simp_all add: wf_def)
      have ne: "i \<noteq> 0x7FFFFFFF" and rest: "0x7FFFFFFF \<notin> set (file_ids ls)"
        using Cons.prems(3) Some r by auto
      have lv: "live ?s = live s @ [?t]"
        using Cons.prems(1) True by (rule live_store_slot)
      have w: "wf ?s"
        using Cons.prems True by (simp add: wf_def)
      have up: "sint (i + 1) = sint i + 1"
        using ne by (rule sint_succ_id)
      have nx: "next_id ?s = ?n" by simp
      have "\<forall>u \<in> set (live s @ [?t]). task_id u <s ?n"
        using Cons.prems(2) up by (auto simp: ids_below_def word_sless_alt word_sle_eq)
      then have b: "ids_below ?s"
        unfolding ids_below_def lv nx .
      from Cons.IH [OF w b rest] obtain s' where
        h: "load_loop ls ?s = Inr s'" "wf s'" "ids_below s'"
           "distinct (map task_id (live ?s) @ file_ids ls) \<longrightarrow> ids_distinct s'"
        by blast
      have d: "distinct (map task_id (live s) @ file_ids (l # ls)) \<longrightarrow> ids_distinct s'"
        using h(4) Some r by (simp add: lv)
      have "load_loop (l # ls) s = Inr s'"
        using True Some r n h(1) by (simp add: wr_ok)
      with h(2,3) d show ?thesis by blast
    qed
  qed
qed

lemma boot_ids:
  assumes "0x7FFFFFFF \<notin> set (file_ids (lines_of file))"
  shows "\<exists>y0. boot file = Inr y0 \<and> sys_wf y0 \<and> ids_below (st y0)
      \<and> (distinct (file_ids (lines_of file)) \<longrightarrow> ids_distinct (st y0))"
proof (cases "file")
  case None
  have "live init_store = []" by (simp add: live_def init_store_def)
  then have "ids_below init_store" "ids_distinct init_store"
    by (simp_all add: ids_below_def ids_distinct_def)
  with None wf_init_store show ?thesis
    by (simp add: boot_def load_tasks_def sys_wf_def)
next
  case (Some ls)
  let ?s = "init_store\<lparr>task_count := 0, next_id := 1\<rparr>"
  have w: "wf ?s" using wf_init_store by (simp add: wf_def MAX_TASKS_def)
  have l: "live ?s = []" by (simp add: live_def)
  have b: "ids_below ?s" by (simp add: ids_below_def l)
  from load_loop_ids [OF w b, of ls] assms Some obtain s' where
    "load_loop ls ?s = Inr s'" "wf s'" "ids_below s'"
    "distinct (file_ids ls) \<longrightarrow> ids_distinct s'"
    by (auto simp: lines_of_def l)
  with Some show ?thesis
    by (simp add: boot_def load_tasks_def sys_wf_def lines_of_def)
qed

lemma count_adds_split: "count_adds (a # as) = count_adds [a] + count_adds as"
  by (cases a) simp_all

lemma step_keeps_distinct:
  assumes "sys_wf y" and "step a y = Inr (out, y')" and "added_tasks [out] = []"
      and "ids_distinct (st y)"
  shows "ids_distinct (st y')"
proof (cases a)
  case (Add ttl cat pr dl)
  show ?thesis
  proof (cases "task_count (st y) < MAX_TASKS")
    case True
    from assms(1) have "wf (st y)" by (simp add: sys_wf_def)
    from add_task_live [OF this True, of ttl cat pr dl] assms(2,3) Add
    show ?thesis by auto
  next
    case False
    then have "step (Add ttl cat pr dl) y = Inr (Rejected, y)"
      by (simp add: add_task_full)
    with assms(2,4) Add show ?thesis by simp
  qed
next
  case (Delete ident)
  from assms(1) have w: "wf (st y)" by (simp add: sys_wf_def)
  from delete_task_live [OF w, of ident] obtain found s' where
    h: "delete_task ident (st y) = Inr (found, s')" "\<not> found \<longrightarrow> s' = st y"
       "found \<longrightarrow> (\<exists>xs t ys. live (st y) = xs @ t # ys \<and> task_id t = ident
            \<and> ident \<notin> task_id ` set xs \<and> live s' = xs @ ys)"
    by blast
  have "ids_distinct s'"
    using h(2,3) assms(4) by (cases found) (auto simp: ids_distinct_def)
  moreover have "st y' = s'"
    using assms(2) Delete h(1) by auto
  ultimately show ?thesis by simp
next
  case (Sched_Poll now_nd now)
  from step_poll [OF assms(1), of now_nd now] assms(2,4) Sched_Poll
  show ?thesis by auto
next
  case (Sched_Wake tnow)
  show ?thesis
  proof (cases "pc y")
    case Waiting
    from assms(1) have w: "wf (st y)" by (simp add: sys_wf_def)
    from extract_due_live [OF w, of tnow] obtain b s' where
      h: "extract_due tnow (st y) = Inr (b, s')"
         "live s' = filter (\<lambda>t. \<not> deadline t \<le> tnow) (live (st y))"
      by blast
    have "ids_distinct s'"
      using assms(4) by (simp add: ids_distinct_def h(2) distinct_map_filter)
    moreover have "st y' = s'"
      using assms(2) Sched_Wake Waiting h(1) by (cases b) auto
    ultimately show ?thesis by simp
  next
    case Top
    with assms(2,4) Sched_Wake show ?thesis by auto
  next
    case (Handoff dc)
    with assms(2,4) Sched_Wake show ?thesis by auto
  qed
next
  case (Sched_Spawn ok)
  from step_spawn [OF assms(1), of ok] assms(2,4) Sched_Spawn
  show ?thesis by auto
next
  case (Notify k)
  from step_notify [OF assms(1), of k] assms(2,4) Notify
  show ?thesis by auto
qed

lemma step_ids:
  assumes "sys_wf y" and "ids_below (st y)"
      and "sint (next_id (st y)) + int (count_adds [a]) < 2 ^ 31"
  shows "\<exists>out y'. step a y = Inr (out, y') \<and> sys_wf y' \<and> ids_below (st y')
      \<and> (ids_distinct (st y) \<longrightarrow> ids_distinct (st y'))
      \<and> sint (next_id (st y')) \<le> sint (next_id (st y)) + int (count_adds [a])"
proof -
  from step_sys_wf [OF assms(1), of a] obtain out y' where
    s: "step a y = Inr (out, y')" "sys_wf y'"
    and c: "(\<exists>t. out = Added t \<and> 0 < count_adds [a] \<and> task_id t = next_id (st y)
              \<and> next_id (st y') = next_id (st y) + 1 \<and> live (st y') = live (st y) @ [t])
         \<or> (added_tasks [out] = [] \<and> next_id (st y') = next_id (st y)
              \<and> set (live (st y')) \<subseteq> set (live (st y)))"
    by blast
  from c show ?thesis
  proof
    assume "\<exists>t. out = Added t \<and> 0 < count_adds [a] \<and> task_id t = next_id (st y)
              \<and> next_id (st y') = next_id (st y) + 1 \<and> live (st y') = live (st y) @ [t]"
    then obtain t where
      t: "0 < count_adds [a]" "task_id t = next_id (st y)"
         "next_id (st y') = next_id (st y) + 1" "live (st y') = live (st y) @ [t]"
      by blast
    have one: "count_adds [a] = 1"
      using count_adds_pos [OF t(1), of "[]"] by simp
    have up: "sint (next_id (st y) + 1) = sint (next_id (st y)) + 1"
      using assms(3) one by (intro sint_succ) simp
    have b: "ids_below (st y')"
      using assms(2) up by (auto simp: ids_below_def t(2,3,4) word_sless_alt)
    have d: "ids_distinct (st y) \<longrightarrow> ids_distinct (st y')"
      using assms(2) by (auto simp: ids_distinct_def ids_below_def t(2,4))
    have "sint (next_id (st y')) \<le> sint (next_id (st y)) + int (count_adds [a])"
      using up one by (simp add: t(3))
    with s b d show ?thesis by blast
  next
    assume o: "added_tasks [out] = [] \<and> next_id (st y') = next_id (st y)
              \<and> set (live (st y')) \<subseteq> set (live (st y))"
    then have b: "ids_below (st y')"
      using assms(2) by (auto simp: ids_below_def)
    have d: "ids_distinct (st y) \<longrightarrow> ids_distinct (st y')"
      using step_keeps_distinct [OF assms(1) s(1)] o by blast
    have "sint (next_id (st y')) \<le> sint (next_id (st y)) + int (count_adds [a])"
      using o by simp
    with s b d show ?thesis by blast
  qed
qed

lemma run_ids:
  "sys_wf y \<Longrightarrow> ids_below (st y) \<Longrightarrow>
   sint (next_id (st y)) + int (count_adds acts) < 2 ^ 31 \<Longrightarrow>
   \<exists>outs y'. run acts y = Inr (outs, y') \<and> sys_wf y' \<and> ids_below (st y')
      \<and> (ids_distinct (st y) \<longrightarrow> ids_distinct (st y'))
      \<and> sint (next_id (st y')) \<le> sint (next_id (st y)) + int (count_adds acts)"
proof (induction acts arbitrary: y)
  case Nil
  then show ?case by simp
next
  case (Cons a as)
  have sp: "count_adds (a # as) = count_adds [a] + count_adds as"
    by (rule count_adds_split)
  have b1: "sint (next_id (st y)) + int (count_adds [a]) < 2 ^ 31"
    using Cons.prems(3) sp by simp
  from step_ids [OF Cons.prems(1,2) b1] obtain out y1 where
    s: "step a y = Inr (out, y1)" "sys_wf y1" "ids_below (st y1)"
       "ids_distinct (st y) \<longrightarrow> ids_distinct (st y1)"
       "sint (next_id (st y1)) \<le> sint (next_id (st y)) + int (count_adds [a])"
    by blast
  have b2: "sint (next_id (st y1)) + int (count_adds as) < 2 ^ 31"
    using Cons.prems(3) sp s(5) by simp
  from Cons.IH [OF s(2,3) b2] obtain outs y2 where
    r: "run as y1 = Inr (outs, y2)" "sys_wf y2" "ids_below (st y2)"
       "ids_distinct (st y1) \<longrightarrow> ids_distinct (st y2)"
       "sint (next_id (st y2)) \<le> sint (next_id (st y1)) + int (count_adds as)"
    by blast
  have "run (a # as) y = Inr (out # outs, y2)"
    by (simp add: s(1) r(1))
  moreover have "sint (next_id (st y2)) \<le> sint (next_id (st y)) + int (count_adds (a # as))"
    using r(5) s(5) sp by simp
  ultimately show ?case using r(2,3,4) s(4) by blast
qed

section \<open>Fresh ids and extracted tasks, from the start of the process\<close>

text \<open>
  C7, amended. With \<^verbatim>\<open>MAX_TASKS\<close> = 256 tasks in the store, an addition is refused with
  \<open>CapacityExceeded\<close> and changes nothing: the system after the step is the system
  before it, task count and id counter included. Below capacity it stores exactly one
  task after the live ones, gives it the id the counter held and advances the counter by
  one. That id is fresh, held by no live task, in every state the process reaches from a
  file none of whose ids is 2147483647 by a run in which the counter does not pass
  2147483647: there all live ids lie below the counter.
\<close>

theorem add_task_capacity:
  shows "MAX_TASKS = 256
       \<and> (MAX_TASKS \<le> task_count (st y) \<longrightarrow>
            add_task ttl cat pr dl (st y) = Inl CapacityExceeded
          \<and> step (Add ttl cat pr dl) y = Inr (Rejected, y))
       \<and> (wf (st y) \<and> task_count (st y) < MAX_TASKS \<longrightarrow>
            (\<exists>s'. add_task ttl cat pr dl (st y) = Inr (next_id (st y), s')
               \<and> live s' = live (st y) @ [\<lparr>task_id = next_id (st y), title = take 127 ttl,
                     category = take 31 cat, priority = pr, deadline = dl\<rparr>]
               \<and> task_count s' = task_count (st y) + 1
               \<and> next_id s' = next_id (st y) + 1))
       \<and> (0x7FFFFFFF \<notin> set (file_ids (lines_of file)) \<longrightarrow>
            (\<exists>y0. boot file = Inr y0
               \<and> (sint (next_id (st y0)) + int (count_adds acts) < 2 ^ 31 \<longrightarrow>
                    (\<exists>outs y1. run acts y0 = Inr (outs, y1) \<and> wf (st y1)
                       \<and> ids_below (st y1)
                       \<and> next_id (st y1) \<notin> task_id ` set (live (st y1))
                       \<and> (task_count (st y1) < MAX_TASKS \<longrightarrow>
                            (\<exists>s'. add_task ttl cat pr dl (st y1)
                                    = Inr (next_id (st y1), s')))))))"
proof (intro conjI impI)
  show "MAX_TASKS = 256" by (simp add: MAX_TASKS_def)
next
  assume "MAX_TASKS \<le> task_count (st y)"
  then show "add_task ttl cat pr dl (st y) = Inl CapacityExceeded"
    by (rule add_task_full)
next
  assume "MAX_TASKS \<le> task_count (st y)"
  then have "add_task ttl cat pr dl (st y) = Inl CapacityExceeded"
    by (rule add_task_full)
  then show "step (Add ttl cat pr dl) y = Inr (Rejected, y)"
    by simp
next
  assume a: "wf (st y) \<and> task_count (st y) < MAX_TASKS"
  from a add_task_live [of "st y" ttl cat pr dl] obtain s' where
    "add_task ttl cat pr dl (st y) = Inr (next_id (st y), s')"
    "next_id s' = next_id (st y) + 1" "task_count s' = task_count (st y) + 1"
    "live s' = live (st y) @ [\<lparr>task_id = next_id (st y), title = take 127 ttl,
            category = take 31 cat, priority = pr, deadline = dl\<rparr>]"
    by blast
  then show "\<exists>s'. add_task ttl cat pr dl (st y) = Inr (next_id (st y), s')
               \<and> live s' = live (st y) @ [\<lparr>task_id = next_id (st y), title = take 127 ttl,
                     category = take 31 cat, priority = pr, deadline = dl\<rparr>]
               \<and> task_count s' = task_count (st y) + 1
               \<and> next_id s' = next_id (st y) + 1"
    by blast
next
  assume f: "0x7FFFFFFF \<notin> set (file_ids (lines_of file))"
  from boot_ids [OF f] obtain y0 where
    b: "boot file = Inr y0" "sys_wf y0" "ids_below (st y0)"
    by blast
  have "\<exists>outs y1. run acts y0 = Inr (outs, y1) \<and> wf (st y1)
           \<and> ids_below (st y1)
           \<and> next_id (st y1) \<notin> task_id ` set (live (st y1))
           \<and> (task_count (st y1) < MAX_TASKS \<longrightarrow>
                (\<exists>s'. add_task ttl cat pr dl (st y1) = Inr (next_id (st y1), s')))"
    if n: "sint (next_id (st y0)) + int (count_adds acts) < 2 ^ 31"
  proof -
    from run_ids [OF b(2,3) n] obtain outs y1 where
      r: "run acts y0 = Inr (outs, y1)" "sys_wf y1" "ids_below (st y1)"
      by blast
    have w: "wf (st y1)" using r(2) by (simp add: sys_wf_def)
    have fresh: "next_id (st y1) \<notin> task_id ` set (live (st y1))"
      using r(3) by (auto simp: ids_below_def)
    have "\<exists>s'. add_task ttl cat pr dl (st y1) = Inr (next_id (st y1), s')"
      if "task_count (st y1) < MAX_TASKS"
      using add_task_live [OF w that, of ttl cat pr dl] by blast
    with r(1,3) w fresh show ?thesis by blast
  qed
  with b(1) show "\<exists>y0. boot file = Inr y0
               \<and> (sint (next_id (st y0)) + int (count_adds acts) < 2 ^ 31 \<longrightarrow>
                    (\<exists>outs y1. run acts y0 = Inr (outs, y1) \<and> wf (st y1)
                       \<and> ids_below (st y1)
                       \<and> next_id (st y1) \<notin> task_id ` set (live (st y1))
                       \<and> (task_count (st y1) < MAX_TASKS \<longrightarrow>
                            (\<exists>s'. add_task ttl cat pr dl (st y1)
                                    = Inr (next_id (st y1), s')))))"
    by blast
qed

theorem add_task_capacity_witness:
  "MAX_TASKS \<le> task_count full_store
   \<and> add_task ''late'' ''Work'' 1 900 full_store = Inl CapacityExceeded
   \<and> step (Add ''late'' ''Work'' 1 900) \<lparr>st = full_store, pc = Top, running = []\<rparr>
       = Inr (Rejected, \<lparr>st = full_store, pc = Top, running = []\<rparr>)
   \<and> wf demo_store \<and> task_count demo_store < MAX_TASKS
   \<and> (\<exists>s'. add_task ''gym'' ''Personal'' 3 300 demo_store = Inr (4, s')
         \<and> live s' = [task_a, task_b, task_c,
              \<lparr>task_id = 4, title = ''gym'', category = ''Personal'', priority = 3,
               deadline = 300\<rparr>]
         \<and> task_count s' = 4 \<and> next_id s' = 5)
   \<and> 0x7FFFFFFF \<notin> set (file_ids (lines_of demo_file))
   \<and> boot demo_file = Inr demo_top
   \<and> sint (next_id (st demo_top)) + int (count_adds add_actions) < 2 ^ 31
   \<and> (\<exists>outs y1. run add_actions demo_top = Inr (outs, y1)
         \<and> next_id (st y1) \<notin> task_id ` set (live (st y1)))
   \<and> added_ids (outputs_of (session demo_file add_actions)) = [4, 5]
   \<and> final_ids (session demo_file add_actions) = [1, 3, 4, 5]"
proof -
  have f: "MAX_TASKS \<le> task_count full_store"
    by (simp add: full_store_def MAX_TASKS_def)
  have d: "task_count demo_store < MAX_TASKS" "task_count demo_store = 3" "next_id demo_store = 4"
    by (simp_all add: demo_store_def MAX_TASKS_def)
  have m: "0x7FFFFFFF \<notin> set (file_ids (lines_of demo_file))"
    by (simp add: lines_of_def demo_file_def)
  have b: "boot demo_file = Inr demo_top"
    by code_simp
  have n: "sint (next_id (st demo_top)) + int (count_adds add_actions) < 2 ^ 31"
    by (simp add: demo_top_def d add_actions_def)
  have e: "added_ids (outputs_of (session demo_file add_actions)) = [4, 5]"
    "final_ids (session demo_file add_actions) = [1, 3, 4, 5]"
    by code_simp+
  have full: "add_task ''late'' ''Work'' 1 900 full_store = Inl CapacityExceeded
     \<and> step (Add ''late'' ''Work'' 1 900) \<lparr>st = full_store, pc = Top, running = []\<rparr>
       = Inr (Rejected, \<lparr>st = full_store, pc = Top, running = []\<rparr>)"
    using add_task_capacity [of "\<lparr>st = full_store, pc = Top, running = []\<rparr>"
        "''late''" "''Work''" 1 900 None "[]"] f
    by simp
  have one: "\<exists>s'. add_task ''gym'' ''Personal'' 3 300 demo_store = Inr (4, s')
         \<and> live s' = [task_a, task_b, task_c,
              \<lparr>task_id = 4, title = ''gym'', category = ''Personal'', priority = 3,
               deadline = 300\<rparr>]
         \<and> task_count s' = 4 \<and> next_id s' = 5"
    using add_task_capacity [of demo_top "''gym''" "''Personal''" 3 300 None "[]"]
      d wf_demo_store
    by (auto simp: live_demo_store demo_top_def)
  have reach: "\<exists>outs y1. run add_actions demo_top = Inr (outs, y1)
         \<and> next_id (st y1) \<notin> task_id ` set (live (st y1))"
    using add_task_capacity [of demo_top "''gym''" "''Personal''" 3 300 demo_file add_actions]
      m b n
    by auto
  show ?thesis
    using f d(1) wf_demo_store m b n e full one reach by blast
qed

text \<open>
  The claim as it stands fails after a file that holds the largest id: the ids 7,
  2147483647 and 6 leave the counter, wrapped by the second line and set again by the
  third, at 7, and the next addition gets the id 7 of a live task.
\<close>

theorem add_task_fresh_counterexample:
  "final_ids (session wrap_file []) = [7, 0x7FFFFFFF, 6]
   \<and> added_ids (outputs_of (session wrap_file [Add ''x'' ''Work'' 1 900])) = [7]
   \<and> final_ids (session wrap_file [Add ''x'' ''Work'' 1 900]) = [7, 0x7FFFFFFF, 6, 7]"
  by code_simp

lemma wake_then_run:
  assumes "sys_wf y"
      and "step (Sched_Wake tnow) y = Inr (Extracted dc, y1)"
      and "run acts y1 = Inr (outs, y2)"
      and "t \<in> set (batch_tasks (Some dc))"
  shows "pc y1 = Handoff dc \<and> running y1 = running y \<and> t \<notin> set (live (st y1))
       \<and> set (live (st y2)) \<subseteq> set (live (st y1)) \<union> set (added_tasks outs)
       \<and> view_tasks (st y2) = Inr (live (st y2))
       \<and> next_deadline now (st y2) = Inr (nd_list now (live (st y2)) 0)
       \<and> (added_tasks outs = []
            \<or> (ids_below (st y) \<and> sint (next_id (st y)) + int (count_adds acts) \<le> 2 ^ 31)
          \<longrightarrow> t \<notin> set (live (st y2)))
       \<and> (ids_below (st y) \<and> distinct (map task_id (live (st y)))
            \<and> sint (next_id (st y)) + int (count_adds acts) \<le> 2 ^ 31
          \<longrightarrow> task_id t \<notin> task_id ` set (live (st y2))
            \<and> delete_task (task_id t) (st y2) = Inr (False, st y2))"
proof -
  from assms(1) have w: "wf (st y)" by (simp add: sys_wf_def)
  have pw: "pc y = Waiting"
    using assms(2) by (cases "pc y") auto
  from extract_due_live [OF w, of tnow] obtain b s' where
    h: "extract_due tnow (st y) = Inr (b, s')"
       "batch_tasks b = filter (\<lambda>t. deadline t \<le> tnow) (live (st y))"
       "live s' = filter (\<lambda>t. \<not> deadline t \<le> tnow) (live (st y))" "wf s'"
       "next_id s' = next_id (st y)"
       "\<forall>dc. b = Some dc \<longrightarrow> 0 < count dc \<and> count dc = int (length (items dc))"
    by blast
  have y1: "b = Some dc" "y1 = y\<lparr>st := s', pc := Handoff dc\<rparr>"
    using assms(2) pw h(1) by (cases b; simp)+
  have w1: "sys_wf y1"
    using h(4,6) y1 by (simp add: sys_wf_def)
  have due: "t \<in> set (live (st y))" "deadline t \<le> tnow"
    using assms(4) h(2) y1(1) by auto
  have kept: "set (live (st y1)) \<subseteq> set (live (st y))"
    "\<forall>u \<in> set (live (st y1)). \<not> deadline u \<le> tnow"
    using h(3) y1(2) by auto
  have gone: "t \<notin> set (live (st y1))"
    using due(2) kept(2) by auto
  have n1: "next_id (st y1) = next_id (st y)"
    using h(5) y1(2) by simp
  from run_counter [OF w1, of acts] assms(3) have
    r: "sys_wf y2" "length (added_tasks outs) \<le> count_adds acts"
       "added_ids outs = map (\<lambda>k. next_id (st y1) + of_nat k) [0..<length (added_tasks outs)]"
       "set (live (st y2)) \<subseteq> set (live (st y1)) \<union> set (added_tasks outs)"
    by auto
  have w2: "wf (st y2)"
    using r(1) by (simp add: sys_wf_def)
  have above: "next_id (st y) \<le>s task_id u"
    if "sint (next_id (st y)) + int (count_adds acts) \<le> 2 ^ 31" and "u \<in> set (added_tasks outs)"
    for u
  proof -
    have m: "sint (next_id (st y1)) + int (length (added_tasks outs)) < 2 ^ 31 + 1"
      using that(1) r(2) n1 by simp
    have "task_id u \<in> set (added_ids outs)"
      using that(2) by (simp add: added_ids_tasks)
    then have "next_id (st y1) \<le>s task_id u"
      unfolding r(3) by (rule counter_ids_above [OF m])
    then show ?thesis using n1 by simp
  qed
  have never: "t \<notin> set (live (st y2))"
    if c: "added_tasks outs = []
        \<or> (ids_below (st y) \<and> sint (next_id (st y)) + int (count_adds acts) \<le> 2 ^ 31)"
  proof
    assume "t \<in> set (live (st y2))"
    with r(4) gone have ta: "t \<in> set (added_tasks outs)" by auto
    with c have below: "ids_below (st y)"
      and bound: "sint (next_id (st y)) + int (count_adds acts) \<le> 2 ^ 31"
      by auto
    have "next_id (st y) \<le>s task_id t"
      using bound ta by (rule above)
    moreover have "task_id t <s next_id (st y)"
      using below due(1) by (simp add: ids_below_def)
    ultimately show False
      by (simp add: word_sle_eq word_sless_alt)
  qed
  have no_id: "task_id t \<notin> task_id ` set (live (st y2))"
    if c: "ids_below (st y) \<and> distinct (map task_id (live (st y)))
        \<and> sint (next_id (st y)) + int (count_adds acts) \<le> 2 ^ 31"
  proof
    assume "task_id t \<in> task_id ` set (live (st y2))"
    then obtain u where u: "u \<in> set (live (st y2))" "task_id u = task_id t"
      by auto
    have lt: "task_id t <s next_id (st y)"
      using c due(1) by (simp add: ids_below_def)
    from u(1) r(4) have "u \<in> set (live (st y1)) \<or> u \<in> set (added_tasks outs)"
      by auto
    then show False
    proof
      assume a: "u \<in> set (live (st y1))"
      with kept have "u \<in> set (live (st y))" "u \<noteq> t"
        using due(2) by auto
      moreover have "inj_on task_id (set (live (st y)))"
        using c by (simp add: distinct_map)
      ultimately show False
        using u(2) due(1) by (auto dest: inj_onD)
    next
      assume "u \<in> set (added_tasks outs)"
      with c have "next_id (st y) \<le>s task_id u"
        by (intro above) auto
      with lt u(2) show False
        by (simp add: word_sle_eq word_sless_alt)
    qed
  qed
  have del: "delete_task (task_id t) (st y2) = Inr (False, st y2)"
    if "task_id t \<notin> task_id ` set (live (st y2))"
    using delete_task_live [OF w2, of "task_id t"] that by auto
  have v: "view_tasks (st y2) = Inr (live (st y2))"
    using w2 by (rule view_tasks_live)
  have nd: "next_deadline now (st y2) = Inr (nd_list now (live (st y2)) 0)"
    using w2 by (rule next_deadline_live)
  show ?thesis
    using y1(2) gone r(4) never no_id del v nd by simp
qed

text \<open>
  C2, amended. When the scheduler's wake-up step extracts a batch, the tasks of the batch
  are out of the live set while the scheduler still holds the batch, before any notifier
  has it. In every run after that, whatever the threads do, a task is live only if it
  was live right after the extraction or an addition of the run stored it: no step of
  the scheduler, of a notifier or of a deletion puts a task into the store, and the
  listing and the deadline selector read the live tasks only. So a task of the batch is
  never listed again in a run without additions. In a process started from a file none
  of whose ids is 2147483647, as long as the id counter does not pass 2147483647, it is
  never listed again at all; when the ids of the file are also distinct, no live task
  has its id again and a deletion of its id finds nothing.
\<close>

theorem extracted_never_visible:
  assumes "boot file = Inr y0"
      and "run before y0 = Inr (outs0, y)"
      and "step (Sched_Wake tnow) y = Inr (Extracted dc, y1)"
      and "run acts y1 = Inr (outs, y2)"
      and "t \<in> set (batch_tasks (Some dc))"
  shows "pc y1 = Handoff dc \<and> running y1 = running y \<and> t \<notin> set (live (st y1))
       \<and> set (live (st y2)) \<subseteq> set (live (st y1)) \<union> set (added_tasks outs)
       \<and> view_tasks (st y2) = Inr (live (st y2))
       \<and> next_deadline now (st y2) = Inr (nd_list now (live (st y2)) 0)
       \<and> (added_tasks outs = [] \<longrightarrow> t \<notin> set (live (st y2)))
       \<and> (0x7FFFFFFF \<notin> set (file_ids (lines_of file))
            \<and> sint (next_id (st y0)) + int (count_adds before) + int (count_adds acts) < 2 ^ 31
          \<longrightarrow> t \<notin> set (live (st y2)))
       \<and> (0x7FFFFFFF \<notin> set (file_ids (lines_of file)) \<and> distinct (file_ids (lines_of file))
            \<and> sint (next_id (st y0)) + int (count_adds before) + int (count_adds acts) < 2 ^ 31
          \<longrightarrow> task_id t \<notin> task_id ` set (live (st y2))
            \<and> delete_task (task_id t) (st y2) = Inr (False, st y2))"
proof -
  have w0: "sys_wf y0"
    using boot_sys_wf [of "file"] assms(1) by auto
  have w: "sys_wf y"
    using run_counter [OF w0, of before] assms(2) by auto
  note g = wake_then_run [OF w assms(3,4,5), of now]
  have inv: "ids_below (st y) \<and> sint (next_id (st y)) + int (count_adds acts) \<le> 2 ^ 31
      \<and> (distinct (file_ids (lines_of file)) \<longrightarrow> distinct (map task_id (live (st y))))"
    if m: "0x7FFFFFFF \<notin> set (file_ids (lines_of file))"
      and n: "sint (next_id (st y0)) + int (count_adds before) + int (count_adds acts) < 2 ^ 31"
  proof -
    from boot_ids [OF m] assms(1) have
      b: "ids_below (st y0)" "distinct (file_ids (lines_of file)) \<longrightarrow> ids_distinct (st y0)"
      by auto
    have n0: "sint (next_id (st y0)) + int (count_adds before) < 2 ^ 31"
      using n by simp
    from run_ids [OF w0 b(1) n0] assms(2) have
      r: "ids_below (st y)" "ids_distinct (st y0) \<longrightarrow> ids_distinct (st y)"
         "sint (next_id (st y)) \<le> sint (next_id (st y0)) + int (count_adds before)"
      by auto
    have "sint (next_id (st y)) + int (count_adds acts) \<le> 2 ^ 31"
      using r(3) n by simp
    with r(1,2) b(2) show ?thesis by (simp add: ids_distinct_def)
  qed
  show ?thesis
    using g inv by blast
qed

theorem extracted_never_visible_witness:
  "boot demo_file = Inr demo_top
   \<and> run poll_actions demo_top = Inr ([Armed 0], demo_waiting)
   \<and> step (Sched_Wake 100) demo_waiting = Inr (Extracted demo_batch, demo_extracted)
   \<and> task_a \<in> set (batch_tasks (Some demo_batch))
   \<and> 0x7FFFFFFF \<notin> set (file_ids (lines_of demo_file))
   \<and> distinct (file_ids (lines_of demo_file))
   \<and> sint (next_id (st demo_top)) + int (count_adds poll_actions)
        + int (count_adds later_actions) < 2 ^ 31
   \<and> (\<exists>outs y2. run later_actions demo_extracted = Inr (outs, y2)
         \<and> task_a \<notin> set (live (st y2))
         \<and> view_tasks (st y2) = Inr (live (st y2))
         \<and> delete_task (task_id task_a) (st y2) = Inr (False, st y2))
   \<and> map task_id (live (st demo_extracted)) = [2]"
proof -
  have b: "boot demo_file = Inr demo_top"
    by code_simp
  have p: "run poll_actions demo_top = Inr ([Armed 0], demo_waiting)"
    by code_simp
  have s: "step (Sched_Wake 100) demo_waiting = Inr (Extracted demo_batch, demo_extracted)"
    by code_simp
  have t: "task_a \<in> set (batch_tasks (Some demo_batch))"
    by (simp add: batch_tasks_def demo_batch_def)
  have m: "0x7FFFFFFF \<notin> set (file_ids (lines_of demo_file))"
    "distinct (file_ids (lines_of demo_file))"
    by (simp_all add: lines_of_def demo_file_def)
  have n: "sint (next_id (st demo_top)) + int (count_adds poll_actions)
        + int (count_adds later_actions) < 2 ^ 31"
    by (simp add: demo_top_def demo_store_def poll_actions_def later_actions_def)
  have l: "map task_id (live (st demo_extracted)) = [2]"
    by (simp add: live_def demo_extracted_def task_b_def)
  have w1: "sys_wf demo_extracted"
    by (simp add: sys_wf_def wf_def demo_extracted_def demo_batch_def MAX_TASKS_def)
  from run_counter [OF w1, of later_actions] obtain outs y2 where
    r: "run later_actions demo_extracted = Inr (outs, y2)"
    by blast
  show ?thesis
    using extracted_never_visible [OF b p s r t] b p s t m n l r by auto
qed

text \<open>
  The claim as it stands fails in two ways. After a file with the id 1 twice, one task
  due and one not, the extraction takes the due one and a deletion of id 1 still finds
  a task. After the file with the ids 7, 2147483647 and 6, task 7 is extracted, and an
  addition of the same title, category, priority and deadline gets the id 7 again: the
  very record of the batch is live once more, and a deletion of id 7 finds it.
\<close>

theorem extracted_visible_counterexample:
  "outputs_of (session dup_file
       [Sched_Poll 100 100, Sched_Wake 100, Sched_Spawn True, Delete 1])
     = [Armed 0,
        Extracted \<lparr>items = [\<lparr>task_id = 1, title = ''call'', category = ''Personal'',
                               priority = 1, deadline = 50\<rparr>], count = 1\<rparr>,
        Spawned, Deleted True]
   \<and> outputs_of (session wrap_file
       [Sched_Poll 100 100, Sched_Wake 100, Sched_Spawn True,
        Add ''call'' ''Personal'' 1 50, Delete 7])
     = [Armed 0,
        Extracted \<lparr>items = [\<lparr>task_id = 7, title = ''call'', category = ''Personal'',
                               priority = 1, deadline = 50\<rparr>], count = 1\<rparr>,
        Spawned,
        Added \<lparr>task_id = 7, title = ''call'', category = ''Personal'', priority = 1,
               deadline = 50\<rparr>,
        Deleted True]"
  by code_simp

end
